theory Spec2Isabelle
  imports Complex_Main
begin

section \<open>Table reconstruction from positioned text lines (pdf2data/pdf.py)\<close>

text \<open>
  The development embeds the table-reconstruction functions of \<^verbatim>\<open>pdf2data/pdf.py\<close>:
  \<^verbatim>\<open>overlap\<close>, \<^verbatim>\<open>get_attr_lookup\<close>, \<^verbatim>\<open>find_attr_group_matching\<close>,
  \<^verbatim>\<open>merge_overlapping_rows\<close> and \<^verbatim>\<open>find_table\<close>.

  Modelling decisions, all visible in the definitions below:
  \<^item> Coordinates are Python numbers; they are modelled as \<^typ>\<open>real\<close>, so arithmetic is exact
    (no floating-point rounding, no NaN).
  \<^item> A \<^verbatim>\<open>TextLine\<close> is a Python object. The class defines neither \<^verbatim>\<open>__eq__\<close> nor
    \<^verbatim>\<open>__lt__\<close>, so \<^verbatim>\<open>==\<close> on two lines is object identity and \<^verbatim>\<open><\<close> raises
    \<^verbatim>\<open>TypeError\<close>. Objects are therefore references into a store, and identity is
    equality of references.
  \<^item> A Python \<^verbatim>\<open>dict\<close> keeps insertion order; it is an association list in that order.
  \<^item> Every \<^verbatim>\<open>raise\<close>, failing \<^verbatim>\<open>assert\<close> and failing builtin is a value \<open>Inl e\<close>.
  \<^item> A regular expression is used only through \<^verbatim>\<open>regex.search(s) is not None\<close>; a compiled
    pattern is modelled as that predicate on strings.
\<close>

subsection \<open>Data model\<close>

type_synonym ref = nat

record TextLine =
  "text" :: string
  fontname :: string
  x0 :: real
  y0 :: real
  x1 :: real
  y1 :: real

text \<open>The store of \<^verbatim>\<open>TextLine\<close> objects: what each reference points to.\<close>

type_synonym store = "ref \<Rightarrow> TextLine"

text \<open>The attribute names that the functions receive as strings (\<^verbatim>\<open>"x0"\<close>, \<^verbatim>\<open>"y0"\<close>, ...).\<close>

datatype attr_name = X0 | Y0 | X1 | Y1

fun getattr :: "TextLine \<Rightarrow> attr_name \<Rightarrow> real" where
  "getattr l X0 = x0 l"
| "getattr l Y0 = y0 l"
| "getattr l X1 = x1 l"
| "getattr l Y1 = y1 l"

text \<open>
  Exceptions. \<open>EmptySequence\<close> is the \<^verbatim>\<open>ValueError\<close> that the builtins \<^verbatim>\<open>min\<close> and
  \<^verbatim>\<open>max\<close> raise on an empty iterable (its message depends on the interpreter version);
  \<open>TypeError\<close> is raised by an order comparison of two \<^verbatim>\<open>TextLine\<close> objects;
  \<open>KeyError\<close> by a dictionary lookup of a missing key.
\<close>

datatype error =
    GroupNotFound
  | RuntimeError string
  | ValueError string
  | EmptySequence
  | TypeError
  | AssertionError
  | KeyError

type_synonym regex = "string \<Rightarrow> bool"

text \<open>A row: \<^verbatim>\<open>dict\<close> from header text to a \<^verbatim>\<open>TextLine\<close> object, in insertion order.\<close>

type_synonym row = "(string \<times> ref) list"

text \<open>\<^verbatim>\<open>d[k] = v\<close>: an existing key keeps its position, a new key goes to the end.\<close>

fun dict_setitem :: "'k \<Rightarrow> 'v \<Rightarrow> ('k \<times> 'v) list \<Rightarrow> ('k \<times> 'v) list" where
  "dict_setitem k v [] = [(k, v)]"
| "dict_setitem k v (p # ps) =
     (if fst p = k then (k, v) # ps else p # dict_setitem k v ps)"

text \<open>\<^verbatim>\<open>d.update(other)\<close>: the items of \<open>other\<close> are stored into \<open>d\<close> one by one, in order.\<close>

definition dict_update :: "('k \<times> 'v) list \<Rightarrow> ('k \<times> 'v) list \<Rightarrow> ('k \<times> 'v) list" where
  "dict_update d other = fold (\<lambda>kv acc. dict_setitem (fst kv) (snd kv) acc) other d"

definition dict_keys :: "('k \<times> 'v) list \<Rightarrow> 'k list" where
  "dict_keys d = map fst d"

definition dict_values :: "('k \<times> 'v) list \<Rightarrow> 'v list" where
  "dict_values d = map snd d"

subsection \<open>Interval overlap\<close>

text \<open>
  \<^verbatim>\<open>
  def overlap(a_min, a_max, b_min, b_max):
      assert b_min <= b_max
      begin_overlap = max(a_min, b_min)
      end_overlap = min(a_max, b_max)
      return max(0, end_overlap - begin_overlap)
  \<close>
\<close>

definition overlap :: "real \<Rightarrow> real \<Rightarrow> real \<Rightarrow> real \<Rightarrow> error + real" where
  "overlap a_min a_max b_min b_max =
     (if \<not> b_min \<le> b_max then Inl AssertionError
      else
        let begin_overlap = max a_min b_min;
            end_overlap = min a_max b_max
        in Inr (max 0 (end_overlap - begin_overlap)))"

subsection \<open>Grouping by an exact attribute value\<close>

text \<open>
  \<^verbatim>\<open>result.setdefault(key, []).append(l)\<close>: the line joins the group of its key, or
  opens a new group at the end of the dictionary.
\<close>

fun setdefault_append :: "real \<Rightarrow> ref \<Rightarrow> (real \<times> ref list) list \<Rightarrow> (real \<times> ref list) list" where
  "setdefault_append k l [] = [(k, [l])]"
| "setdefault_append k l (g # gs) =
     (if fst g = k then (fst g, snd g @ [l]) # gs else g # setdefault_append k l gs)"

definition get_attr_lookup :: "store \<Rightarrow> ref list \<Rightarrow> attr_name \<Rightarrow> (real \<times> ref list) list" where
  "get_attr_lookup \<sigma> lines attr =
     fold (\<lambda>l result. setdefault_append (getattr (\<sigma> l) attr) l result) lines []"

subsection \<open>Locating the header group\<close>

text \<open>
  \<^verbatim>\<open>
  result = [attr_value for attr_value, row_lines in attr_lookup.items()
            if all(any(regex.search(l.text) is not None for l in row_lines)
                   for regex in regexes)]
  if len(result) < 1: raise GroupNotFound()
  if len(result) > 1: raise RuntimeError("more than one group found matching")
  attr_value, = result
  return attr_value
  \<close>
\<close>

definition group_matches :: "store \<Rightarrow> regex list \<Rightarrow> ref list \<Rightarrow> bool" where
  "group_matches \<sigma> regexes row_lines =
     list_all (\<lambda>regex. list_ex (\<lambda>l. regex (text (\<sigma> l))) row_lines) regexes"

definition find_attr_group_matching :: "store \<Rightarrow> regex list \<Rightarrow> attr_name \<Rightarrow> ref list \<Rightarrow> error + real" where
  "find_attr_group_matching \<sigma> regexes attr lines =
     (let attr_lookup = get_attr_lookup \<sigma> lines attr;
          result = map fst (filter (\<lambda>g. group_matches \<sigma> regexes (snd g)) attr_lookup)
      in if length result < 1 then Inl GroupNotFound
         else if length result > 1 then Inl (RuntimeError ''more than one group found matching'')
         else Inr (hd result))"

subsection \<open>Merging rows whose extents overlap\<close>

text \<open>The builtins \<^verbatim>\<open>min\<close> and \<^verbatim>\<open>max\<close> on a sequence of numbers.\<close>

definition min_of :: "real list \<Rightarrow> error + real" where
  "min_of xs = (case xs of [] \<Rightarrow> Inl EmptySequence | x # rest \<Rightarrow> Inr (fold min rest x))"

definition max_of :: "real list \<Rightarrow> error + real" where
  "max_of xs = (case xs of [] \<Rightarrow> Inl EmptySequence | x # rest \<Rightarrow> Inr (fold max rest x))"

text \<open>
  \<^verbatim>\<open>
  def get_row_extent(row):
      return (min(getattr(line, row_min_attr_name) for line in row.values()),
              max(getattr(line, row_max_attr_name) for line in row.values()))
  \<close>
\<close>

definition get_row_extent :: "store \<Rightarrow> attr_name \<Rightarrow> attr_name \<Rightarrow> row \<Rightarrow> error + real \<times> real" where
  "get_row_extent \<sigma> row_min_attr row_max_attr row =
     (case min_of (map (\<lambda>line. getattr (\<sigma> line) row_min_attr) (dict_values row)) of
        Inl e \<Rightarrow> Inl e
      | Inr lo \<Rightarrow>
          (case max_of (map (\<lambda>line. getattr (\<sigma> line) row_max_attr) (dict_values row)) of
             Inl e \<Rightarrow> Inl e
           | Inr hi \<Rightarrow> Inr (lo, hi)))"

text \<open>
  The overlap of the extents of two rows, as one iteration of the loop computes it: the
  extent of \<open>row\<close>, then the extent of \<open>next_row\<close>, then \<^verbatim>\<open>overlap\<close>.
\<close>

definition extent_overlap :: "store \<Rightarrow> attr_name \<Rightarrow> attr_name \<Rightarrow> row \<Rightarrow> row \<Rightarrow> error + real" where
  "extent_overlap \<sigma> row_min_attr row_max_attr row next_row =
     (case get_row_extent \<sigma> row_min_attr row_max_attr row of
        Inl e \<Rightarrow> Inl e
      | Inr (row_min, row_max) \<Rightarrow>
          (case get_row_extent \<sigma> row_min_attr row_max_attr next_row of
             Inl e \<Rightarrow> Inl e
           | Inr (next_row_min, next_row_max) \<Rightarrow>
               overlap row_min row_max next_row_min next_row_max))"

text \<open>
  The \<^verbatim>\<open>while i_row < len(rows)\<close> loop, with its three variables \<open>i_row\<close>, \<open>row\<close> and
  \<open>new_rows\<close>. \<^verbatim>\<open>row.update(next_row)\<close> changes the accumulated dictionary in place; the
  rows of the input list are distinct objects (as \<^verbatim>\<open>find_table\<close> builds them) and the
  loop never reads a position of \<open>rows\<close> below \<open>i_row\<close> again, so the accumulated
  dictionary is carried as a value.
\<close>

function merge_loop ::
  "store \<Rightarrow> attr_name \<Rightarrow> attr_name \<Rightarrow> row list \<Rightarrow> nat \<Rightarrow> row \<Rightarrow> row list \<Rightarrow> error + row list" where
  "merge_loop \<sigma> row_min_attr row_max_attr rows i_row row new_rows =
     (if i_row < length rows then
        (let next_row = rows ! i_row in
         case extent_overlap \<sigma> row_min_attr row_max_attr row next_row of
           Inl e \<Rightarrow> Inl e
         | Inr ovl \<Rightarrow>
             if ovl \<noteq> 0
             then merge_loop \<sigma> row_min_attr row_max_attr rows (i_row + 1)
                    (dict_update row next_row) new_rows
             else merge_loop \<sigma> row_min_attr row_max_attr rows (i_row + 1)
                    next_row (new_rows @ [row]))
      else Inr (new_rows @ [row]))"
  by pat_completeness auto

termination
  by (relation "measure (\<lambda>(\<sigma>, row_min_attr, row_max_attr, rows, i_row, row, new_rows).
                  length rows - i_row)") auto

declare merge_loop.simps [simp del]

definition merge_overlapping_rows ::
  "store \<Rightarrow> row list \<Rightarrow> attr_name \<Rightarrow> attr_name \<Rightarrow> error + row list" where
  "merge_overlapping_rows \<sigma> rows row_min_attr row_max_attr =
     (if rows = [] then Inr rows
      else merge_loop \<sigma> row_min_attr row_max_attr rows 1 (rows ! 0) [])"

text \<open>
  The same loop as a recursion on the rows still to come, with the overlap computed by
  \<open>extent_overlap\<close> as above (an auxiliary form for the proofs; lemma
  \<open>merge_overlapping_rows_eq_walk\<close> shows that it is the loop).
\<close>

fun merge_walk :: "store \<Rightarrow> attr_name \<Rightarrow> attr_name \<Rightarrow> row \<Rightarrow> row list \<Rightarrow> error + row list" where
  "merge_walk \<sigma> row_min_attr row_max_attr acc [] = Inr [acc]"
| "merge_walk \<sigma> row_min_attr row_max_attr acc (next_row # rest) =
     (case extent_overlap \<sigma> row_min_attr row_max_attr acc next_row of
        Inl e \<Rightarrow> Inl e
      | Inr ovl \<Rightarrow>
          if 0 < ovl
          then merge_walk \<sigma> row_min_attr row_max_attr (dict_update acc next_row) rest
          else (case merge_walk \<sigma> row_min_attr row_max_attr next_row rest of
                  Inl e \<Rightarrow> Inl e
                | Inr out \<Rightarrow> Inr (acc # out)))"

definition merge_rows_walk :: "store \<Rightarrow> row list \<Rightarrow> attr_name \<Rightarrow> attr_name \<Rightarrow> error + row list" where
  "merge_rows_walk \<sigma> rows row_min_attr row_max_attr =
     (case rows of [] \<Rightarrow> Inr [] | first # rest \<Rightarrow> merge_walk \<sigma> row_min_attr row_max_attr first rest)"

subsection \<open>Selecting from (number, object) tuples\<close>

text \<open>
  \<^verbatim>\<open>find_table\<close> selects a header with \<^verbatim>\<open>min\<close> or \<^verbatim>\<open>max\<close> over tuples
  \<^verbatim>\<open>(number, h)\<close>. Python compares tuples lexicographically: the first components are
  compared with \<^verbatim>\<open>==\<close>; if they differ, they decide; if they are equal, the second
  components are compared with \<^verbatim>\<open>==\<close> (identity for \<^verbatim>\<open>TextLine\<close>), and if those differ
  the order comparison of the two \<^verbatim>\<open>TextLine\<close> objects raises \<^verbatim>\<open>TypeError\<close>.
\<close>

definition tuple_lt :: "real \<times> ref \<Rightarrow> real \<times> ref \<Rightarrow> error + bool" where
  "tuple_lt a b =
     (if fst a \<noteq> fst b then Inr (fst a < fst b)
      else if snd a = snd b then Inr False
      else Inl TypeError)"

definition tuple_gt :: "real \<times> ref \<Rightarrow> real \<times> ref \<Rightarrow> error + bool" where
  "tuple_gt a b =
     (if fst a \<noteq> fst b then Inr (fst a > fst b)
      else if snd a = snd b then Inr False
      else Inl TypeError)"

text \<open>
  The builtin \<^verbatim>\<open>min\<close>: the first item is the current minimum; each later item replaces
  it when \<^verbatim>\<open>item < current\<close>. \<^verbatim>\<open>max\<close> is the same with \<^verbatim>\<open>item > current\<close>.
\<close>

fun min_loop :: "real \<times> ref \<Rightarrow> (real \<times> ref) list \<Rightarrow> error + real \<times> ref" where
  "min_loop cur [] = Inr cur"
| "min_loop cur (item # items) =
     (case tuple_lt item cur of
        Inl e \<Rightarrow> Inl e
      | Inr b \<Rightarrow> min_loop (if b then item else cur) items)"

fun max_loop :: "real \<times> ref \<Rightarrow> (real \<times> ref) list \<Rightarrow> error + real \<times> ref" where
  "max_loop cur [] = Inr cur"
| "max_loop cur (item # items) =
     (case tuple_gt item cur of
        Inl e \<Rightarrow> Inl e
      | Inr b \<Rightarrow> max_loop (if b then item else cur) items)"

definition py_min :: "(real \<times> ref) list \<Rightarrow> error + real \<times> ref" where
  "py_min xs = (case xs of [] \<Rightarrow> Inl EmptySequence | x # rest \<Rightarrow> min_loop x rest)"

definition py_max :: "(real \<times> ref) list \<Rightarrow> error + real \<times> ref" where
  "py_max xs = (case xs of [] \<Rightarrow> Inl EmptySequence | x # rest \<Rightarrow> max_loop x rest)"

subsection \<open>Building the table\<close>

text \<open>
  \<^verbatim>\<open>overlaps_and_headers = [(overlap(h.col_min, h.col_max, lmin, lmax), h) for h in headers]\<close>
\<close>

fun overlaps_and_headers ::
  "store \<Rightarrow> attr_name \<Rightarrow> attr_name \<Rightarrow> real \<Rightarrow> real \<Rightarrow> ref list \<Rightarrow> error + (real \<times> ref) list" where
  "overlaps_and_headers \<sigma> col_min col_max lmin lmax [] = Inr []"
| "overlaps_and_headers \<sigma> col_min col_max lmin lmax (h # hs) =
     (case overlap (getattr (\<sigma> h) col_min) (getattr (\<sigma> h) col_max) lmin lmax of
        Inl e \<Rightarrow> Inl e
      | Inr ovl \<Rightarrow>
          (case overlaps_and_headers \<sigma> col_min col_max lmin lmax hs of
             Inl e \<Rightarrow> Inl e
           | Inr rest \<Rightarrow> Inr ((ovl, h) # rest)))"

text \<open>
  The header chosen for one line \<open>l\<close> of a row (the body of the inner loop up to
  \<^verbatim>\<open>key = h.text\<close>); \<open>headers\<close> is the list already sorted by \<open>col_min\<close>.
\<close>

definition select_header ::
  "store \<Rightarrow> ref list \<Rightarrow> attr_name \<Rightarrow> attr_name \<Rightarrow> string \<Rightarrow> ref \<Rightarrow> error + ref" where
  "select_header \<sigma> headers col_min col_max heading_bias l =
     (let lmin = getattr (\<sigma> l) col_min;
          lmax = getattr (\<sigma> l) col_max
      in if \<not> lmin \<le> lmax then Inl AssertionError
         else
           let lctr = (lmin + lmax) * 0.5
           in case overlaps_and_headers \<sigma> col_min col_max lmin lmax headers of
                Inl e \<Rightarrow> Inl e
              | Inr ovls \<Rightarrow>
                  (case filter (\<lambda>oh. fst oh \<noteq> 0) ovls of
                     [] \<Rightarrow>
                       if heading_bias = ''centered'' then
                         map_sum id snd
                           (py_min (map (\<lambda>h. (\<bar>0.5 * (getattr (\<sigma> h) col_min
                                                    + getattr (\<sigma> h) col_max) - lctr\<bar>, h))
                                     headers))
                       else if heading_bias = ''min'' then
                         map_sum id snd
                           (py_max (map (\<lambda>h. (getattr (\<sigma> h) col_min, h))
                                     (filter (\<lambda>h. getattr (\<sigma> h) col_min \<le> lmin) headers)))
                       else Inl (ValueError ''unrecognized heading bias'')
                   | [oh] \<Rightarrow> Inr (snd oh)
                   | possible_headers \<Rightarrow>
                       map_sum id snd
                         (py_min (map (\<lambda>oh. (getattr (\<sigma> (snd oh)) col_min, snd oh))
                                   possible_headers))))"

text \<open>The message of \<^verbatim>\<open>ValueError(f"duplicate assignment of key '{key}'")\<close>.\<close>

definition duplicate_message :: "string \<Rightarrow> string" where
  "duplicate_message key = ''duplicate assignment of key '' @ [CHR 0x27] @ key @ [CHR 0x27]"

text \<open>One pass of the inner loop body: choose the header, then store \<open>l\<close> under its text.\<close>

definition assign_line ::
  "store \<Rightarrow> ref list \<Rightarrow> attr_name \<Rightarrow> attr_name \<Rightarrow> string \<Rightarrow> row \<Rightarrow> ref \<Rightarrow> error + row" where
  "assign_line \<sigma> headers col_min col_max heading_bias row l =
     (case select_header \<sigma> headers col_min col_max heading_bias l of
        Inl e \<Rightarrow> Inl e
      | Inr h \<Rightarrow>
          let key = text (\<sigma> h)
          in if key \<in> set (dict_keys row) then Inl (ValueError (duplicate_message key))
             else Inr (dict_setitem key l row))"

text \<open>\<^verbatim>\<open>for l in row_lines: ...\<close>\<close>

fun fill_row ::
  "store \<Rightarrow> ref list \<Rightarrow> attr_name \<Rightarrow> attr_name \<Rightarrow> string \<Rightarrow> row \<Rightarrow> ref list \<Rightarrow> error + row" where
  "fill_row \<sigma> headers col_min col_max heading_bias row [] = Inr row"
| "fill_row \<sigma> headers col_min col_max heading_bias row (l # ls) =
     (case assign_line \<sigma> headers col_min col_max heading_bias row l of
        Inl e \<Rightarrow> Inl e
      | Inr row' \<Rightarrow> fill_row \<sigma> headers col_min col_max heading_bias row' ls)"

text \<open>\<^verbatim>\<open>for row_lookup_key in sorted(row_lookup, reverse=reverse_sort): ...\<close>\<close>

fun build_rows ::
  "store \<Rightarrow> ref list \<Rightarrow> attr_name \<Rightarrow> attr_name \<Rightarrow> string \<Rightarrow> (real \<times> ref list) list \<Rightarrow> real list
     \<Rightarrow> error + row list" where
  "build_rows \<sigma> headers col_min col_max heading_bias row_lookup [] = Inr []"
| "build_rows \<sigma> headers col_min col_max heading_bias row_lookup (k # ks) =
     (case map_of row_lookup k of
        None \<Rightarrow> Inl KeyError
      | Some row_lines \<Rightarrow>
          (case fill_row \<sigma> headers col_min col_max heading_bias [] row_lines of
             Inl e \<Rightarrow> Inl e
           | Inr row \<Rightarrow>
               (case build_rows \<sigma> headers col_min col_max heading_bias row_lookup ks of
                  Inl e \<Rightarrow> Inl e
                | Inr rows \<Rightarrow> Inr (row # rows))))"

text \<open>
  The keys of \<open>row_lookup\<close> in visiting order. The keys of a dictionary are distinct, so
  the descending order is the reverse of the ascending one.
\<close>

definition sorted_keys :: "bool \<Rightarrow> (real \<times> ref list) list \<Rightarrow> real list" where
  "sorted_keys reverse_sort row_lookup =
     (if reverse_sort then rev (sort (dict_keys row_lookup)) else sort (dict_keys row_lookup))"

text \<open>
  \<^verbatim>\<open>headers = sorted(headers, key=lambda l: getattr(l, col_min_attr_name))\<close>: a new list,
  to which the local name \<open>headers\<close> is bound from then on; the sort is stable.

  The objects the caller of \<^verbatim>\<open>find_table\<close> holds: list objects and \<^verbatim>\<open>TextLine\<close> objects,
  each behind a reference. \<^verbatim>\<open>find_table\<close> receives references to two lists and returns its
  result together with the state of these objects after the call (also when it raises).
  \<^verbatim>\<open>sorted\<close> builds a new list, \<^verbatim>\<open>get_attr_lookup\<close> a new dictionary of new lists, and
  the rows are new dictionaries: here these are values. The definition \<open>find_table_heap\<close>
  further down makes them objects of the heap, with every allocation and every write;
  lemma \<open>find_table_heap_refines\<close> shows that it computes the result of \<open>find_table\<close>.
\<close>

record pyheap =
  lists :: "ref \<Rightarrow> ref list"
  objs :: store

definition sorted_headers :: "pyheap \<Rightarrow> ref \<Rightarrow> attr_name \<Rightarrow> ref list" where
  "sorted_headers heap headers col_min_attr =
     sort_key (\<lambda>l. getattr (objs heap l) col_min_attr) (lists heap headers)"

definition find_table ::
  "pyheap \<Rightarrow> ref \<Rightarrow> ref \<Rightarrow> attr_name \<Rightarrow> attr_name \<Rightarrow> attr_name \<Rightarrow> attr_name \<Rightarrow> bool \<Rightarrow> string
     \<Rightarrow> (error + row list) \<times> pyheap" where
  "find_table heap headers lines row_min_attr row_max_attr col_min_attr col_max_attr
       reverse_sort heading_bias =
     (let \<sigma> = objs heap;
          headers' = sorted_headers heap headers col_min_attr;
          row_lookup = get_attr_lookup \<sigma> (lists heap lines) row_min_attr
      in (build_rows \<sigma> headers' col_min_attr col_max_attr heading_bias row_lookup
            (sorted_keys reverse_sort row_lookup),
          heap))"

text \<open>
  \<^verbatim>\<open>find_row_table = partial(find_table, row_min_attr_name="y0", row_max_attr_name="y1",
  col_min_attr_name="x0", col_max_attr_name="x1", reverse_sort=True)\<close>, and the transposed
  \<^verbatim>\<open>find_col_table\<close>.
\<close>

definition find_row_table :: "pyheap \<Rightarrow> ref \<Rightarrow> ref \<Rightarrow> string \<Rightarrow> (error + row list) \<times> pyheap" where
  "find_row_table heap headers lines heading_bias =
     find_table heap headers lines Y0 Y1 X0 X1 True heading_bias"

definition find_col_table :: "pyheap \<Rightarrow> ref \<Rightarrow> ref \<Rightarrow> string \<Rightarrow> (error + row list) \<times> pyheap" where
  "find_col_table heap headers lines heading_bias =
     find_table heap headers lines X0 X1 Y0 Y1 False heading_bias"

subsection \<open>Building the table: the objects and the effects\<close>

text \<open>
  \<^verbatim>\<open>find_table\<close> once more, now with every object it creates and every write it makes.
  Besides the lists and the \<^verbatim>\<open>TextLine\<close> objects, the heap holds the dictionaries of
  \<^verbatim>\<open>get_attr_lookup\<close> (attribute value to a reference to a list) and the row dictionaries
  (header text to a reference to a \<^verbatim>\<open>TextLine\<close>). Lists and dictionaries are allocated at
  \<open>next_ref\<close>, which only grows; a reference below \<open>next_ref\<close> is an object that exists.
\<close>

record objheap = pyheap +
  lookups :: "ref \<Rightarrow> (real \<times> ref) list"
  rowdicts :: "ref \<Rightarrow> row"
  next_ref :: ref

text \<open>Allocation: \<^verbatim>\<open>sorted(...)\<close> and \<^verbatim>\<open>[]\<close> make a new list, \<^verbatim>\<open>{}\<close> a new dictionary.\<close>

definition new_list :: "ref list \<Rightarrow> objheap \<Rightarrow> ref \<times> objheap" where
  "new_list xs h =
     (next_ref h, h\<lparr>lists := (lists h)(next_ref h := xs), next_ref := next_ref h + 1\<rparr>)"

definition new_lookup :: "objheap \<Rightarrow> ref \<times> objheap" where
  "new_lookup h =
     (next_ref h, h\<lparr>lookups := (lookups h)(next_ref h := []), next_ref := next_ref h + 1\<rparr>)"

definition new_row :: "objheap \<Rightarrow> ref \<times> objheap" where
  "new_row h =
     (next_ref h, h\<lparr>rowdicts := (rowdicts h)(next_ref h := []), next_ref := next_ref h + 1\<rparr>)"

text \<open>
  Writes in place: \<^verbatim>\<open>lst.append(x)\<close> and \<^verbatim>\<open>d[k] = v\<close> change the object behind the
  reference, whoever else holds that reference.
\<close>

definition list_append :: "ref \<Rightarrow> ref \<Rightarrow> objheap \<Rightarrow> objheap" where
  "list_append r x h = h\<lparr>lists := (lists h)(r := lists h r @ [x])\<rparr>"

definition lookup_setitem :: "ref \<Rightarrow> real \<Rightarrow> ref \<Rightarrow> objheap \<Rightarrow> objheap" where
  "lookup_setitem r k v h = h\<lparr>lookups := (lookups h)(r := dict_setitem k v (lookups h r))\<rparr>"

definition row_setitem :: "ref \<Rightarrow> string \<Rightarrow> ref \<Rightarrow> objheap \<Rightarrow> objheap" where
  "row_setitem r k v h = h\<lparr>rowdicts := (rowdicts h)(r := dict_setitem k v (rowdicts h r))\<rparr>"

text \<open>
  \<^verbatim>\<open>result.setdefault(getattr(l, attr_name), []).append(l)\<close>: when the key is absent a new
  empty list is stored under it; the line is appended to the list under the key.
\<close>

definition lookup_add :: "attr_name \<Rightarrow> ref \<Rightarrow> ref \<Rightarrow> objheap \<Rightarrow> objheap" where
  "lookup_add attr result l h =
     (let k = getattr (objs h l) attr
      in case map_of (lookups h result) k of
           Some g \<Rightarrow> list_append g l h
         | None \<Rightarrow>
             (let (g, h1) = new_list [] h;
                  h2 = lookup_setitem result k g h1
              in list_append g l h2))"

text \<open>\<^verbatim>\<open>get_attr_lookup\<close>: \<^verbatim>\<open>result = {}\<close>, then the loop over \<open>lines\<close>.\<close>

definition get_attr_lookup_heap :: "objheap \<Rightarrow> ref \<Rightarrow> attr_name \<Rightarrow> ref \<times> objheap" where
  "get_attr_lookup_heap h lines attr =
     (let (result, h1) = new_lookup h
      in (result, fold (lookup_add attr result) (lists h1 lines) h1))"

text \<open>
  The inner loop \<^verbatim>\<open>for l in row_lines\<close>: the header is chosen among the elements of the
  list behind \<open>headers\<close> (the sorted copy), then \<^verbatim>\<open>row[key] = l\<close> writes the row dictionary
  unless the key is present. The first error ends the call; the heap is as the writes
  made before it left it.
\<close>

fun fill_row_heap ::
  "ref \<Rightarrow> attr_name \<Rightarrow> attr_name \<Rightarrow> string \<Rightarrow> ref \<Rightarrow> ref list \<Rightarrow> objheap
     \<Rightarrow> error option \<times> objheap" where
  "fill_row_heap headers col_min col_max heading_bias row [] h = (None, h)"
| "fill_row_heap headers col_min col_max heading_bias row (l # ls) h =
     (case select_header (objs h) (lists h headers) col_min col_max heading_bias l of
        Inl e \<Rightarrow> (Some e, h)
      | Inr header \<Rightarrow>
          let key = text (objs h header)
          in if key \<in> set (dict_keys (rowdicts h row))
             then (Some (ValueError (duplicate_message key)), h)
             else fill_row_heap headers col_min col_max heading_bias row ls
                    (row_setitem row key l h))"

text \<open>
  The outer loop \<^verbatim>\<open>for row_lookup_key in sorted(row_lookup, reverse=reverse_sort)\<close>:
  \<^verbatim>\<open>row_lines = row_lookup[row_lookup_key]\<close>, \<^verbatim>\<open>row = {}\<close>, \<^verbatim>\<open>rows.append(row)\<close>, then the
  inner loop over the elements of \<open>row_lines\<close>.
\<close>

fun build_rows_heap ::
  "ref \<Rightarrow> attr_name \<Rightarrow> attr_name \<Rightarrow> string \<Rightarrow> ref \<Rightarrow> ref \<Rightarrow> real list \<Rightarrow> objheap
     \<Rightarrow> error option \<times> objheap" where
  "build_rows_heap headers col_min col_max heading_bias row_lookup rows [] h = (None, h)"
| "build_rows_heap headers col_min col_max heading_bias row_lookup rows (k # ks) h =
     (case map_of (lookups h row_lookup) k of
        None \<Rightarrow> (Some KeyError, h)
      | Some row_lines \<Rightarrow>
          (let (row, h1) = new_row h;
               h2 = list_append rows row h1
           in case fill_row_heap headers col_min col_max heading_bias row (lists h2 row_lines) h2 of
                (Some e, h3) \<Rightarrow> (Some e, h3)
              | (None, h3) \<Rightarrow>
                  build_rows_heap headers col_min col_max heading_bias row_lookup rows ks h3))"

text \<open>
  \<^verbatim>\<open>find_table\<close>: the sorted headers are a new list, to which the local name \<open>headers\<close> is
  bound from then on; \<open>row_lookup\<close> and \<open>rows\<close> are new objects; the call returns the
  reference \<open>rows\<close>, or the error, and the heap it leaves.
\<close>

definition find_table_heap ::
  "objheap \<Rightarrow> ref \<Rightarrow> ref \<Rightarrow> attr_name \<Rightarrow> attr_name \<Rightarrow> attr_name \<Rightarrow> attr_name \<Rightarrow> bool \<Rightarrow> string
     \<Rightarrow> (error + ref) \<times> objheap" where
  "find_table_heap h headers lines row_min_attr row_max_attr col_min_attr col_max_attr
       reverse_sort heading_bias =
     (let (headers', h1) =
            new_list (sort_key (\<lambda>l. getattr (objs h l) col_min_attr) (lists h headers)) h;
          (row_lookup, h2) = get_attr_lookup_heap h1 lines row_min_attr;
          (rows, h3) = new_list [] h2;
          keys = (if reverse_sort then rev (sort (dict_keys (lookups h3 row_lookup)))
                  else sort (dict_keys (lookups h3 row_lookup)))
      in case build_rows_heap headers' col_min_attr col_max_attr heading_bias row_lookup rows
                keys h3 of
           (Some e, h4) \<Rightarrow> (Inl e, h4)
         | (None, h4) \<Rightarrow> (Inr rows, h4))"

subsection \<open>Notions used to state the properties\<close>

text \<open>
  The coordinate values whose group satisfies every pattern: a value of the grouping
  attribute taken by some line, such that every pattern is found in the text of at least
  one line with that value.
\<close>

definition matching_groups :: "store \<Rightarrow> regex list \<Rightarrow> attr_name \<Rightarrow> ref list \<Rightarrow> real set" where
  "matching_groups \<sigma> regexes attr lines =
     {v \<in> (\<lambda>l. getattr (\<sigma> l) attr) ` set lines.
        \<forall>regex \<in> set regexes. \<exists>l \<in> set lines. getattr (\<sigma> l) attr = v \<and> regex (text (\<sigma> l))}"

text \<open>
  No pair of adjacent rows has a strictly positive extent overlap: for each adjacent pair
  the overlap, computed as the loop computes it, is \<open>0\<close>.
\<close>

fun no_adjacent_overlap :: "store \<Rightarrow> attr_name \<Rightarrow> attr_name \<Rightarrow> row list \<Rightarrow> bool" where
  "no_adjacent_overlap \<sigma> row_min_attr row_max_attr [] = True"
| "no_adjacent_overlap \<sigma> row_min_attr row_max_attr [r] = True"
| "no_adjacent_overlap \<sigma> row_min_attr row_max_attr (r # r' # rest) =
     (extent_overlap \<sigma> row_min_attr row_max_attr r r' = Inr 0
      \<and> no_adjacent_overlap \<sigma> row_min_attr row_max_attr (r' # rest))"

text \<open>
  A row that has an extent: it holds at least one line, and each of its lines has its
  minimum coordinate at or below its maximum coordinate (the invariant of a bounding box).
\<close>

definition row_ok :: "store \<Rightarrow> attr_name \<Rightarrow> attr_name \<Rightarrow> row \<Rightarrow> bool" where
  "row_ok \<sigma> row_min_attr row_max_attr r \<longleftrightarrow>
     r \<noteq> []
     \<and> list_all (\<lambda>l. getattr (\<sigma> l) row_min_attr \<le> getattr (\<sigma> l) row_max_attr) (dict_values r)"

definition rows_ok :: "store \<Rightarrow> attr_name \<Rightarrow> attr_name \<Rightarrow> row list \<Rightarrow> bool" where
  "rows_ok \<sigma> row_min_attr row_max_attr rows = list_all (row_ok \<sigma> row_min_attr row_max_attr) rows"

text \<open>The header keys that appear in some row of a sequence.\<close>

definition all_keys :: "row list \<Rightarrow> string set" where
  "all_keys rows = \<Union> (set (map (\<lambda>r. set (dict_keys r)) rows))"

text \<open>
  The row clusters in the order in which \<^verbatim>\<open>find_table\<close> visits them: for each key of
  \<open>row_lookup\<close>, in sorted order, the lines grouped under it.
\<close>

definition row_clusters :: "store \<Rightarrow> ref list \<Rightarrow> attr_name \<Rightarrow> bool \<Rightarrow> ref list list" where
  "row_clusters \<sigma> lines row_min_attr reverse_sort =
     (let row_lookup = get_attr_lookup \<sigma> lines row_min_attr
      in map (\<lambda>k. case map_of row_lookup k of None \<Rightarrow> [] | Some row_lines \<Rightarrow> row_lines)
           (sorted_keys reverse_sort row_lookup))"

text \<open>
  The overlap of header \<open>h\<close> with line \<open>l\<close> on the column axis, and the distance of
  their column centres, as \<^verbatim>\<open>find_table\<close> computes them.
\<close>

definition col_overlap :: "store \<Rightarrow> attr_name \<Rightarrow> attr_name \<Rightarrow> ref \<Rightarrow> ref \<Rightarrow> real" where
  "col_overlap \<sigma> col_min col_max h l =
     max 0 (min (getattr (\<sigma> h) col_max) (getattr (\<sigma> l) col_max)
            - max (getattr (\<sigma> h) col_min) (getattr (\<sigma> l) col_min))"

definition center_distance :: "store \<Rightarrow> attr_name \<Rightarrow> attr_name \<Rightarrow> ref \<Rightarrow> ref \<Rightarrow> real" where
  "center_distance \<sigma> col_min col_max h l =
     \<bar>0.5 * (getattr (\<sigma> h) col_min + getattr (\<sigma> h) col_max)
       - (getattr (\<sigma> l) col_min + getattr (\<sigma> l) col_max) * 0.5\<bar>"

text \<open>
  The extent of a row as the specification words it: the least \<open>row_min_attr\<close> and the
  greatest \<open>row_max_attr\<close> over the fragments of the row. These are the minimum and the
  maximum of a set; no function of the code is used.
\<close>

definition row_extent :: "store \<Rightarrow> attr_name \<Rightarrow> attr_name \<Rightarrow> row \<Rightarrow> real \<times> real" where
  "row_extent \<sigma> row_min_attr row_max_attr r =
     (Min ((\<lambda>l. getattr (\<sigma> l) row_min_attr) ` set (dict_values r)),
      Max ((\<lambda>l. getattr (\<sigma> l) row_max_attr) ` set (dict_values r)))"

text \<open>The length of the intersection of two intervals, \<open>0\<close> when they are disjoint.\<close>

definition interval_overlap :: "real \<times> real \<Rightarrow> real \<times> real \<Rightarrow> real" where
  "interval_overlap e e' =
     (if max (fst e) (fst e') \<le> min (snd e) (snd e')
      then min (snd e) (snd e') - max (fst e) (fst e') else 0)"

text \<open>
  The walk as the specification words it: an accumulator and the rows still to come.
  When the extent of the next row overlaps the extent of the accumulator by a strictly
  positive amount, the next row is merged into the accumulator; otherwise the accumulator
  is emitted and the next row takes its place; at the end the accumulator is emitted.
\<close>

fun merge_accumulate :: "store \<Rightarrow> attr_name \<Rightarrow> attr_name \<Rightarrow> row \<Rightarrow> row list \<Rightarrow> row list" where
  "merge_accumulate \<sigma> row_min_attr row_max_attr acc [] = [acc]"
| "merge_accumulate \<sigma> row_min_attr row_max_attr acc (next_row # rest) =
     (if 0 < interval_overlap (row_extent \<sigma> row_min_attr row_max_attr acc)
               (row_extent \<sigma> row_min_attr row_max_attr next_row)
      then merge_accumulate \<sigma> row_min_attr row_max_attr (dict_update acc next_row) rest
      else acc # merge_accumulate \<sigma> row_min_attr row_max_attr next_row rest)"

definition merge_rows_spec :: "store \<Rightarrow> row list \<Rightarrow> attr_name \<Rightarrow> attr_name \<Rightarrow> row list" where
  "merge_rows_spec \<sigma> rows row_min_attr row_max_attr =
     (case rows of [] \<Rightarrow> [] | first # rest \<Rightarrow> merge_accumulate \<sigma> row_min_attr row_max_attr first rest)"

text \<open>
  Every object that exists before a call (a reference below \<open>n\<close>) has the same content
  after it, and no \<^verbatim>\<open>TextLine\<close> has changed.
\<close>

definition unchanged_below :: "ref \<Rightarrow> objheap \<Rightarrow> objheap \<Rightarrow> bool" where
  "unchanged_below n h h' \<longleftrightarrow>
     objs h' = objs h \<and> next_ref h \<le> next_ref h'
     \<and> (\<forall>r<n. lists h' r = lists h r \<and> lookups h' r = lookups h r \<and> rowdicts h' r = rowdicts h r)"

text \<open>
  The dictionary behind \<open>result\<close> read as a value: each key with the content of its list.
  While \<^verbatim>\<open>get_attr_lookup\<close> runs, the lists of the dictionary are distinct objects
  allocated after it.
\<close>

definition decode_lookup :: "objheap \<Rightarrow> ref \<Rightarrow> (real \<times> ref list) list" where
  "decode_lookup h result = map (\<lambda>kg. (fst kg, lists h (snd kg))) (lookups h result)"

definition lookup_inv :: "objheap \<Rightarrow> ref \<Rightarrow> bool" where
  "lookup_inv h result \<longleftrightarrow>
     result < next_ref h \<and> distinct (map snd (lookups h result))
     \<and> (\<forall>g \<in> snd ` set (lookups h result). result < g \<and> g < next_ref h)"

subsection \<open>Example data\<close>

text \<open>\<^verbatim>\<open>TextLine.__init__(self, text, fontname, bbox)\<close>\<close>

definition new_TextLine :: "string \<Rightarrow> string \<Rightarrow> real \<times> real \<times> real \<times> real \<Rightarrow> TextLine" where
  "new_TextLine t f bbox =
     (case bbox of (a, b, c, d) \<Rightarrow> \<lparr>text = t, fontname = f, x0 = a, y0 = b, x1 = c, y1 = d\<rparr>)"

text \<open>A store holding the given objects at the references \<open>0, 1, 2, \<dots>\<close>.\<close>

definition store_of :: "TextLine list \<Rightarrow> store" where
  "store_of ls r = (if r < length ls then ls ! r else new_TextLine [] [] (0, 0, 0, 0))"

text \<open>A heap holding the given \<^verbatim>\<open>TextLine\<close> objects and list objects at \<open>0, 1, 2, \<dots>\<close>.\<close>

definition heap_of :: "TextLine list \<Rightarrow> ref list list \<Rightarrow> pyheap" where
  "heap_of ls lsts =
     \<lparr>lists = (\<lambda>r. if r < length lsts then lsts ! r else []), objs = store_of ls\<rparr>"

text \<open>The compiled pattern of a literal string: it is found anywhere in the text.\<close>

fun literal :: "string \<Rightarrow> regex" where
  "literal pat [] = (pat = [])"
| "literal pat (c # cs) = (take (length pat) (c # cs) = pat \<or> literal pat cs)"

text \<open>A page with a header line and one body line.\<close>

definition page_store :: store where
  "page_store = store_of
     [new_TextLine ''Last Name'' ''Helvetica-Bold'' (10, 100, 60, 110),
      new_TextLine ''First Name'' ''Helvetica-Bold'' (70, 100, 120, 110),
      new_TextLine ''Smith'' ''Helvetica'' (10, 90, 40, 98),
      new_TextLine ''John'' ''Helvetica'' (70, 90, 95, 98)]"

text \<open>Three lines with vertical extents \<open>(0, 5)\<close>, \<open>(4, 9)\<close> and \<open>(6, 9)\<close>.\<close>

definition rows_store :: store where
  "rows_store = store_of
     [new_TextLine ''a'' ''F'' (0, 0, 10, 5),
      new_TextLine ''b'' ''F'' (20, 4, 30, 9),
      new_TextLine ''c'' ''F'' (20, 6, 30, 9)]"

text \<open>
  Headers \<open>A\<close> and \<open>B\<close>; a first row with one line under \<open>B\<close>, and a second row with two
  lines that both lie under \<open>A\<close>.
\<close>

definition dup_heap :: pyheap where
  "dup_heap = heap_of
     [new_TextLine ''A'' ''F'' (0, 0, 10, 0),
      new_TextLine ''B'' ''F'' (10, 0, 20, 0),
      new_TextLine ''w'' ''F'' (12, -3, 15, -3),
      new_TextLine ''x'' ''F'' (2, -5, 8, -5),
      new_TextLine ''y'' ''F'' (3, -5, 9, -5)]
     [[0, 1], [2, 3, 4]]"

text \<open>
  The caller's header list is not in column order: \<open>B\<close> comes before \<open>A\<close>.
\<close>

definition unsorted_heap :: pyheap where
  "unsorted_heap = heap_of
     [new_TextLine ''A'' ''F'' (0, 0, 10, 0),
      new_TextLine ''B'' ''F'' (10, 0, 20, 0),
      new_TextLine ''x'' ''F'' (2, -5, 8, -5),
      new_TextLine ''y'' ''F'' (9, -7, 12, -7)]
     [[1, 0], [2, 3]]"

text \<open>
  Headers \<open>A\<close> (columns 0 to 4) and \<open>B\<close> (columns 8 to 12) and a line \<open>x\<close> (columns 5 to 7)
  that overlaps neither and whose centre 6 is at distance 4 from both header centres.
\<close>

definition centered_tie_heap :: pyheap where
  "centered_tie_heap = heap_of
     [new_TextLine ''A'' ''F'' (0, 0, 4, 0),
      new_TextLine ''B'' ''F'' (8, 0, 12, 0),
      new_TextLine ''x'' ''F'' (5, -5, 7, -5)]
     [[0, 1], [2]]"

text \<open>
  Headers \<open>A\<close> and \<open>B\<close> with the same centre 5 and header \<open>C\<close> with centre 55, and a
  line \<open>x\<close> (columns 100 to 102) to the right of all: \<open>C\<close> alone is nearest.
\<close>

definition centered_far_heap :: pyheap where
  "centered_far_heap = heap_of
     [new_TextLine ''A'' ''F'' (0, 0, 10, 0),
      new_TextLine ''B'' ''F'' (1, 0, 9, 0),
      new_TextLine ''C'' ''F'' (50, 0, 60, 0),
      new_TextLine ''x'' ''F'' (100, -5, 102, -5)]
     [[0, 1, 2], [3]]"

text \<open>
  Two header lines stacked in one column, both starting at column 0, and a line \<open>x\<close>
  (columns 2 to 8) that overlaps both.
\<close>

definition stacked_headers_heap :: pyheap where
  "stacked_headers_heap = heap_of
     [new_TextLine ''Last'' ''F'' (0, 10, 10, 20),
      new_TextLine ''Name'' ''F'' (0, 0, 12, 10),
      new_TextLine ''x'' ''F'' (2, -5, 8, -5)]
     [[0, 1], [2]]"

text \<open>
  Headers \<open>A\<close> and \<open>B\<close> both starting at column 1, header \<open>C\<close> starting at column 5, and
  a line \<open>x\<close> (columns 7 to 8) to the right of all of them.
\<close>

definition min_bias_heap :: pyheap where
  "min_bias_heap = heap_of
     [new_TextLine ''A'' ''F'' (1, 0, 2, 0),
      new_TextLine ''B'' ''F'' (1, 0, 3, 0),
      new_TextLine ''C'' ''F'' (5, 0, 6, 0),
      new_TextLine ''x'' ''F'' (7, -5, 8, -5)]
     [[0, 1, 2], [3]]"

text \<open>
  Rows of a table whose first row is split over two layout lines: fragments \<open>a\<close> (rows 0
  to 5) and \<open>b\<close> (rows 0 to 8) are one row, \<open>c\<close> (rows 6 to 9) continues it, \<open>d\<close> (rows 20
  to 25) is the next row; \<open>e\<close> has its bounds the wrong way round (30 and 28).
\<close>

definition wrapped_store :: store where
  "wrapped_store = store_of
     [new_TextLine ''a'' ''F'' (0, 0, 10, 5),
      new_TextLine ''b'' ''F'' (20, 0, 30, 8),
      new_TextLine ''c'' ''F'' (40, 6, 50, 9),
      new_TextLine ''d'' ''F'' (0, 20, 10, 25),
      new_TextLine ''e'' ''F'' (0, 30, 10, 28)]"

text \<open>
  The heap of a caller holding the lists and lines of \<open>unsorted_heap\<close>: the list objects
  \<open>0\<close> and \<open>1\<close> exist, no dictionary does.
\<close>

definition table_heap :: objheap where
  "table_heap =
     \<lparr>lists = lists unsorted_heap, objs = objs unsorted_heap,
      lookups = (\<lambda>r. []), rowdicts = (\<lambda>r. []), next_ref = 2\<rparr>"

section \<open>Properties\<close>

subsection \<open>Interval overlap\<close>

lemma overlap_value:
  "b_min \<le> b_max \<Longrightarrow>
     overlap a_min a_max b_min b_max = Inr (max 0 (min a_max b_max - max a_min b_min))"
  by (simp add: overlap_def)

lemma overlap_nonneg: "overlap a_min a_max b_min b_max = Inr v \<Longrightarrow> 0 \<le> v"
  by (auto simp: overlap_def Let_def split: if_splits)

text \<open>
  Claim C8. For well-formed intervals \<open>a_min \<le> a_max\<close> and \<open>b_min \<le> b_max\<close>,
  \<^verbatim>\<open>overlap\<close> returns a value \<open>v\<close> (the assertion does not fail) with \<open>0 \<le> v\<close>; exchanging
  the two intervals gives the same value; when the closed intervals intersect, their
  intersection is the interval from \<open>max a_min b_min\<close> to \<open>min a_max b_max\<close> and \<open>v\<close> is
  its length; when they are disjoint, \<open>v = 0\<close>.
\<close>

theorem overlap_intersection_length:
  assumes "a_min \<le> a_max" and "b_min \<le> b_max"
  shows "\<exists>v. overlap a_min a_max b_min b_max = Inr v
           \<and> 0 \<le> v
           \<and> overlap b_min b_max a_min a_max = Inr v
           \<and> ({a_min..a_max} \<inter> {b_min..b_max} \<noteq> {} \<longrightarrow>
                {a_min..a_max} \<inter> {b_min..b_max} = {max a_min b_min..min a_max b_max}
                \<and> v = min a_max b_max - max a_min b_min)
           \<and> ({a_min..a_max} \<inter> {b_min..b_max} = {} \<longrightarrow> v = 0)"
proof -
  let ?lo = "max a_min b_min" and ?hi = "min a_max b_max"
  have inter: "{a_min..a_max} \<inter> {b_min..b_max} = {?lo..?hi}"
    by auto
  have sym: "overlap b_min b_max a_min a_max = Inr (max 0 (?hi - ?lo))"
    using assms(1) by (simp add: overlap_def min.commute max.commute)
  have pos: "{?lo..?hi} \<noteq> {} \<Longrightarrow> max 0 (?hi - ?lo) = ?hi - ?lo"
    by simp
  have empty: "{?lo..?hi} = {} \<Longrightarrow> max 0 (?hi - ?lo) = 0"
    using assms by (simp add: max_def min_def split: if_splits)
  show ?thesis
    using overlap_value [OF assms(2), of a_min a_max] sym pos empty
    unfolding inter by auto
qed

theorem overlap_intersection_length_witness:
  "(0::real) \<le> 5 \<and> (4::real) \<le> 9
     \<and> overlap 0 5 4 9 = Inr 1 \<and> overlap 4 9 0 5 = Inr 1
     \<and> {0..5::real} \<inter> {4..9} = {4..5}
     \<and> overlap 0 5 6 9 = Inr 0 \<and> {0..5::real} \<inter> {6..9} = {}"
  using overlap_intersection_length [of 0 5 4 9] overlap_intersection_length [of 0 5 6 9]
  by (auto simp: overlap_def)

subsection \<open>Grouping and the header group\<close>

lemma setdefault_append_keys:
  "map fst (setdefault_append k l d) = (if k \<in> fst ` set d then map fst d else map fst d @ [k])"
  by (induction d) auto

lemma setdefault_append_map_of:
  "map_of (setdefault_append k l d) k' =
     (if k' = k then Some ((case map_of d k of None \<Rightarrow> [] | Some g \<Rightarrow> g) @ [l]) else map_of d k')"
  by (induction d) auto

lemma get_attr_lookup_snoc:
  "get_attr_lookup \<sigma> (lines @ [l]) attr =
     setdefault_append (getattr (\<sigma> l) attr) l (get_attr_lookup \<sigma> lines attr)"
  by (simp add: get_attr_lookup_def)

lemma get_attr_lookup_keys:
  "set (map fst (get_attr_lookup \<sigma> lines attr)) = (\<lambda>l. getattr (\<sigma> l) attr) ` set lines"
proof (induction lines rule: rev_induct)
  case Nil
  show ?case by (simp add: get_attr_lookup_def)
next
  case (snoc l lines)
  then show ?case
    by (auto simp: get_attr_lookup_snoc setdefault_append_keys)
qed

lemma get_attr_lookup_distinct: "distinct (map fst (get_attr_lookup \<sigma> lines attr))"
proof (induction lines rule: rev_induct)
  case Nil
  show ?case by (simp add: get_attr_lookup_def)
next
  case (snoc l lines)
  then show ?case
    by (auto simp: get_attr_lookup_snoc setdefault_append_keys)
qed

lemma get_attr_lookup_map_of:
  "map_of (get_attr_lookup \<sigma> lines attr) k =
     (if k \<in> (\<lambda>l. getattr (\<sigma> l) attr) ` set lines
      then Some (filter (\<lambda>l. getattr (\<sigma> l) attr = k) lines) else None)"
proof (induction lines rule: rev_induct)
  case Nil
  show ?case by (simp add: get_attr_lookup_def)
next
  case (snoc l lines)
  have absent: "[] = filter (\<lambda>l'. getattr (\<sigma> l') attr = v) lines"
    if "v \<notin> (\<lambda>l. getattr (\<sigma> l) attr) ` set lines" for v
    using that by (induction lines) auto
  from snoc show ?case
    by (auto simp: get_attr_lookup_snoc setdefault_append_map_of absent split: if_splits)
qed

lemma get_attr_lookup_group:
  assumes "(k, g) \<in> set (get_attr_lookup \<sigma> lines attr)"
  shows "g = filter (\<lambda>l. getattr (\<sigma> l) attr = k) lines \<and> g \<noteq> []"
proof -
  have "map_of (get_attr_lookup \<sigma> lines attr) k = Some g"
    using assms get_attr_lookup_distinct by (simp add: map_of_eq_Some_iff)
  then have g: "k \<in> (\<lambda>l. getattr (\<sigma> l) attr) ` set lines"
    "g = filter (\<lambda>l. getattr (\<sigma> l) attr = k) lines"
    by (auto simp: get_attr_lookup_map_of split: if_splits)
  then show ?thesis by (auto simp: filter_empty_conv)
qed

lemma group_matches_iff:
  "group_matches \<sigma> regexes g \<longleftrightarrow> (\<forall>regex \<in> set regexes. \<exists>l \<in> set g. regex (text (\<sigma> l)))"
  by (simp add: group_matches_def list_all_iff list_ex_iff)

lemma matching_groups_result:
  "set (map fst (filter (\<lambda>g. group_matches \<sigma> regexes (snd g)) (get_attr_lookup \<sigma> lines attr)))
     = matching_groups \<sigma> regexes attr lines"
  (is "set (map fst (filter ?P ?d)) = ?M")
proof (intro set_eqI iffI)
  fix v
  assume "v \<in> set (map fst (filter ?P ?d))"
  then obtain g where g: "(v, g) \<in> set ?d" "group_matches \<sigma> regexes g"
    by auto
  from get_attr_lookup_group [OF g(1)]
  have geq: "g = filter (\<lambda>l. getattr (\<sigma> l) attr = v) lines" by simp
  have "v \<in> (\<lambda>l. getattr (\<sigma> l) attr) ` set lines"
    using g(1) get_attr_lookup_keys [of \<sigma> lines attr] by force
  moreover have "\<forall>regex \<in> set regexes. \<exists>l \<in> set lines. getattr (\<sigma> l) attr = v \<and> regex (text (\<sigma> l))"
    using g(2) unfolding group_matches_iff geq by auto
  ultimately show "v \<in> ?M" by (simp add: matching_groups_def)
next
  fix v
  assume "v \<in> ?M"
  then have v: "v \<in> (\<lambda>l. getattr (\<sigma> l) attr) ` set lines"
    and m: "\<forall>regex \<in> set regexes. \<exists>l \<in> set lines. getattr (\<sigma> l) attr = v \<and> regex (text (\<sigma> l))"
    by (simp_all add: matching_groups_def)
  let ?g = "filter (\<lambda>l. getattr (\<sigma> l) attr = v) lines"
  have "map_of ?d v = Some ?g"
    using v by (simp add: get_attr_lookup_map_of)
  then have "(v, ?g) \<in> set ?d" by (rule map_of_SomeD)
  moreover have "group_matches \<sigma> regexes ?g"
    unfolding group_matches_iff using m by auto
  ultimately show "v \<in> set (map fst (filter ?P ?d))" by force
qed

lemma matching_result_distinct:
  "distinct (map fst (filter (\<lambda>g. group_matches \<sigma> regexes (snd g)) (get_attr_lookup \<sigma> lines attr)))"
  using get_attr_lookup_distinct [of \<sigma> lines attr] by (rule distinct_map_filter)

lemma matching_groups_card:
  "card (matching_groups \<sigma> regexes attr lines) =
     length (map fst (filter (\<lambda>g. group_matches \<sigma> regexes (snd g)) (get_attr_lookup \<sigma> lines attr)))"
  using distinct_card [OF matching_result_distinct, of \<sigma> regexes lines attr]
  by (simp only: matching_groups_result)

text \<open>
  Claim C2. Let \<open>n\<close> be the number of coordinate values whose group satisfies every pattern
  (\<open>matching_groups\<close>). If \<open>n = 1\<close>, \<^verbatim>\<open>find_attr_group_matching\<close> returns that one value;
  if \<open>n = 0\<close> it raises \<^verbatim>\<open>GroupNotFound\<close>; if \<open>n \<ge> 2\<close> it raises the
  \<^verbatim>\<open>RuntimeError\<close> "more than one group found matching" and returns no value.
\<close>

theorem find_attr_group_matching_trichotomy:
  "(card (matching_groups \<sigma> regexes attr lines) = 1 \<longrightarrow>
      (\<exists>v. matching_groups \<sigma> regexes attr lines = {v}
           \<and> find_attr_group_matching \<sigma> regexes attr lines = Inr v))
   \<and> (card (matching_groups \<sigma> regexes attr lines) = 0 \<longrightarrow>
        find_attr_group_matching \<sigma> regexes attr lines = Inl GroupNotFound)
   \<and> (2 \<le> card (matching_groups \<sigma> regexes attr lines) \<longrightarrow>
        find_attr_group_matching \<sigma> regexes attr lines
          = Inl (RuntimeError ''more than one group found matching''))"
proof -
  let ?result = "map fst (filter (\<lambda>g. group_matches \<sigma> regexes (snd g)) (get_attr_lookup \<sigma> lines attr))"
  let ?M = "matching_groups \<sigma> regexes attr lines"
  have card: "card ?M = length ?result" by (rule matching_groups_card)
  have set: "set ?result = ?M" by (rule matching_groups_result)
  have one: "\<exists>v. ?M = {v} \<and> find_attr_group_matching \<sigma> regexes attr lines = Inr v"
    if "card ?M = 1"
  proof -
    from that card have "length ?result = 1" by simp
    then obtain v where v: "?result = [v]"
      by (cases ?result) auto
    then have "?M = {v}" using set by simp
    moreover have "find_attr_group_matching \<sigma> regexes attr lines = Inr v"
      unfolding find_attr_group_matching_def Let_def v by simp
    ultimately show ?thesis by blast
  qed
  have zero: "find_attr_group_matching \<sigma> regexes attr lines = Inl GroupNotFound"
    if "card ?M = 0"
    using that card by (simp add: find_attr_group_matching_def)
  have many: "find_attr_group_matching \<sigma> regexes attr lines
          = Inl (RuntimeError ''more than one group found matching'')"
    if "2 \<le> card ?M"
    using that card by (auto simp: find_attr_group_matching_def Let_def)
  from one zero many show ?thesis by blast
qed

theorem find_attr_group_matching_trichotomy_witness:
  "card (matching_groups page_store [literal ''Last Name'', literal ''First Name''] Y0 [0, 1, 2, 3]) = 1
   \<and> find_attr_group_matching page_store [literal ''Last Name'', literal ''First Name''] Y0 [0, 1, 2, 3]
       = Inr 100
   \<and> card (matching_groups page_store [literal ''Zip''] Y0 [0, 1, 2, 3]) = 0
   \<and> find_attr_group_matching page_store [literal ''Zip''] Y0 [0, 1, 2, 3] = Inl GroupNotFound
   \<and> 2 \<le> card (matching_groups page_store [] Y0 [0, 1, 2, 3])
   \<and> find_attr_group_matching page_store [] Y0 [0, 1, 2, 3]
       = Inl (RuntimeError ''more than one group found matching'')"
proof -
  have lookup: "get_attr_lookup page_store [0, 1, 2, 3] Y0 = [(100, [0, 1]), (90, [2, 3])]"
    by (simp add: get_attr_lookup_def page_store_def store_of_def new_TextLine_def)
  have texts: "text (page_store 0) = ''Last Name''" "text (page_store 1) = ''First Name''"
    "text (page_store 2) = ''Smith''" "text (page_store 3) = ''John''"
    by (simp_all add: page_store_def store_of_def new_TextLine_def)
  have one: "card (matching_groups page_store [literal ''Last Name'', literal ''First Name''] Y0 [0, 1, 2, 3]) = 1"
    by (simp add: matching_groups_card lookup group_matches_def texts del: One_nat_def)
  have zero: "card (matching_groups page_store [literal ''Zip''] Y0 [0, 1, 2, 3]) = 0"
    by (simp add: matching_groups_card lookup group_matches_def texts del: One_nat_def)
  have many: "2 \<le> card (matching_groups page_store [] Y0 [0, 1, 2, 3])"
    by (simp add: matching_groups_card lookup group_matches_def del: One_nat_def)
  have r: "find_attr_group_matching page_store [literal ''Last Name'', literal ''First Name''] Y0 [0, 1, 2, 3]
       = Inr 100"
    by (simp add: find_attr_group_matching_def lookup group_matches_def texts del: One_nat_def)
  show ?thesis
    using one zero many r
      find_attr_group_matching_trichotomy [of page_store "[literal ''Zip'']" Y0 "[0, 1, 2, 3]"]
      find_attr_group_matching_trichotomy [of page_store "[]" Y0 "[0, 1, 2, 3]"]
      find_attr_group_matching_trichotomy
        [of page_store "[literal ''Last Name'', literal ''First Name'']" Y0 "[0, 1, 2, 3]"]
    by simp
qed

subsection \<open>Dictionaries\<close>

lemma dict_setitem_map_of: "map_of (dict_setitem k v d) = (map_of d)(k \<mapsto> v)"
  by (induction d) (auto simp: fun_eq_iff)

lemma dict_setitem_keys: "set (dict_keys (dict_setitem k v d)) = insert k (set (dict_keys d))"
  by (induction d) (auto simp: dict_keys_def)

lemma dict_setitem_values:
  "set (dict_values (dict_setitem k v d)) \<subseteq> insert v (set (dict_values d))"
  by (induction d) (auto simp: dict_values_def)

lemma dict_setitem_nonempty: "dict_setitem k v d \<noteq> []"
  by (cases d) auto

lemma dict_setitem_fresh: "k \<notin> set (dict_keys d) \<Longrightarrow> dict_setitem k v d = d @ [(k, v)]"
  by (induction d) (auto simp: dict_keys_def)

lemma dict_update_Nil: "dict_update d [] = d"
  by (simp add: dict_update_def)

lemma dict_update_Cons: "dict_update d (kv # other) = dict_update (dict_setitem (fst kv) (snd kv) d) other"
  by (simp add: dict_update_def)

lemma dict_update_keys:
  "set (dict_keys (dict_update d other)) = set (dict_keys d) \<union> set (dict_keys other)"
proof (induction other arbitrary: d)
  case Nil
  show ?case by (simp add: dict_update_Nil dict_keys_def)
next
  case (Cons kv other)
  have "set (dict_keys (kv # other)) = insert (fst kv) (set (dict_keys other))"
    by (simp add: dict_keys_def)
  then show ?case
    by (simp add: dict_update_Cons Cons.IH dict_setitem_keys)
qed

lemma dict_update_values:
  "set (dict_values (dict_update d other)) \<subseteq> set (dict_values d) \<union> set (dict_values other)"
proof (induction other arbitrary: d)
  case Nil
  show ?case by (simp add: dict_update_Nil)
next
  case (Cons kv other)
  have "set (dict_values (dict_update (dict_setitem (fst kv) (snd kv) d) other))
          \<subseteq> set (dict_values (dict_setitem (fst kv) (snd kv) d)) \<union> set (dict_values other)"
    by (rule Cons.IH)
  also have "\<dots> \<subseteq> insert (snd kv) (set (dict_values d)) \<union> set (dict_values other)"
    using dict_setitem_values [of "fst kv" "snd kv" d] by blast
  also have "\<dots> = set (dict_values d) \<union> set (dict_values (kv # other))"
    by (auto simp: dict_values_def)
  finally show ?case by (simp add: dict_update_Cons)
qed

lemma dict_update_nonempty: "d \<noteq> [] \<Longrightarrow> dict_update d other \<noteq> []"
proof (induction other arbitrary: d)
  case Nil
  then show ?case by (simp add: dict_update_Nil)
next
  case (Cons kv other)
  show ?case
    by (simp add: dict_update_Cons Cons.IH dict_setitem_nonempty)
qed

lemma dict_update_map_of:
  "distinct (dict_keys other) \<Longrightarrow> map_of (dict_update d other) = map_of d ++ map_of other"
proof (induction other arbitrary: d)
  case Nil
  show ?case by (simp add: dict_update_Nil)
next
  case (Cons kv other)
  then have fresh: "fst kv \<notin> dom (map_of other)" and dist: "distinct (dict_keys other)"
    by (auto simp: dict_keys_def dom_map_of_conv_image_fst)
  have "map_of (dict_update d (kv # other))
          = map_of (dict_setitem (fst kv) (snd kv) d) ++ map_of other"
    by (simp only: dict_update_Cons Cons.IH [OF dist])
  also have "\<dots> = (map_of d)(fst kv \<mapsto> snd kv) ++ map_of other"
    by (simp only: dict_setitem_map_of)
  also have "\<dots> = map_of d ++ (map_of other)(fst kv \<mapsto> snd kv)"
    using fresh by (auto simp: fun_eq_iff map_add_def split: option.splits)
  also have "(map_of other)(fst kv \<mapsto> snd kv) = map_of (kv # other)"
    by (cases kv) simp
  finally show ?case .
qed

subsection \<open>Merging rows: the loop is the walk\<close>

lemma extent_overlap_nonneg:
  "extent_overlap \<sigma> a b r r' = Inr v \<Longrightarrow> 0 \<le> v"
  by (auto simp: extent_overlap_def split: sum.splits prod.splits dest: overlap_nonneg)

lemma merge_loop_walk:
  "merge_loop \<sigma> a b rows i row new_rows =
     (case merge_walk \<sigma> a b row (drop i rows) of
        Inl e \<Rightarrow> Inl e
      | Inr out \<Rightarrow> Inr (new_rows @ out))"
proof (induction \<sigma> a b rows i row new_rows rule: merge_loop.induct)
  case (1 \<sigma> a b rows i row new_rows)
  show ?case
  proof (cases "i < length rows")
    case False
    then show ?thesis by (simp add: merge_loop.simps [of \<sigma> a b rows i])
  next
    case True
    then have drop: "drop i rows = rows ! i # drop (i + 1) rows"
      by (simp add: Cons_nth_drop_Suc)
    show ?thesis
    proof (cases "extent_overlap \<sigma> a b row (rows ! i)")
      case (Inl e)
      with True show ?thesis
        by (simp add: merge_loop.simps [of \<sigma> a b rows i] drop)
    next
      case (Inr ovl)
      then have nonneg: "0 \<le> ovl" by (rule extent_overlap_nonneg)
      show ?thesis
      proof (cases "ovl = 0")
        case True
        with "1.IH"(2) [OF \<open>i < length rows\<close> refl Inr] Inr \<open>i < length rows\<close>
        show ?thesis
          by (simp add: merge_loop.simps [of \<sigma> a b rows i] drop split: sum.splits)
      next
        case False
        with nonneg have "0 < ovl" by simp
        with "1.IH"(1) [OF \<open>i < length rows\<close> refl Inr False] Inr \<open>i < length rows\<close> False
        show ?thesis
          by (simp add: merge_loop.simps [of \<sigma> a b rows i] drop split: sum.splits)
      qed
    qed
  qed
qed

lemma merge_overlapping_rows_eq_walk:
  "merge_overlapping_rows \<sigma> rows a b = merge_rows_walk \<sigma> rows a b"
proof (cases rows)
  case Nil
  then show ?thesis by (simp add: merge_overlapping_rows_def merge_rows_walk_def)
next
  case (Cons r rs)
  then show ?thesis
    by (simp add: merge_overlapping_rows_def merge_rows_walk_def merge_loop_walk
          split: sum.splits)
qed

lemma rows_store_simps:
  "rows_store 0 = new_TextLine ''a'' ''F'' (0, 0, 10, 5)"
  "rows_store 1 = new_TextLine ''b'' ''F'' (20, 4, 30, 9)"
  "rows_store 2 = new_TextLine ''c'' ''F'' (20, 6, 30, 9)"
  by (simp_all add: rows_store_def store_of_def)

lemma rows_store_overlaps:
  "extent_overlap rows_store Y0 Y1 [(''A'', 0)] [(''B'', 1)] = Inr 1"
  "extent_overlap rows_store Y0 Y1 [(''A'', 0)] [(''B'', 2)] = Inr 0"
  by (simp_all add: extent_overlap_def get_row_extent_def min_of_def max_of_def dict_values_def
        overlap_def rows_store_simps new_TextLine_def del: One_nat_def)

subsection \<open>Merging rows: already merged input\<close>

lemma merge_walk_no_overlap:
  "no_adjacent_overlap \<sigma> a b (acc # rest) \<Longrightarrow> merge_walk \<sigma> a b acc rest = Inr (acc # rest)"
  by (induction rest arbitrary: acc) auto

text \<open>
  Claim C7. On a sequence of rows in which no pair of adjacent rows has a strictly
  positive extent overlap, \<^verbatim>\<open>merge_overlapping_rows\<close> returns the same rows in the same
  order.
\<close>

theorem merge_overlapping_rows_fixed:
  assumes "no_adjacent_overlap \<sigma> row_min_attr row_max_attr rows"
  shows "merge_overlapping_rows \<sigma> rows row_min_attr row_max_attr = Inr rows"
proof (cases rows)
  case Nil
  then show ?thesis by (simp add: merge_overlapping_rows_def)
next
  case (Cons r rs)
  with assms show ?thesis
    by (simp add: merge_overlapping_rows_eq_walk merge_rows_walk_def merge_walk_no_overlap)
qed

theorem merge_overlapping_rows_fixed_witness:
  "no_adjacent_overlap rows_store Y0 Y1 [[(''A'', 0)], [(''B'', 2)]]
   \<and> merge_overlapping_rows rows_store [[(''A'', 0)], [(''B'', 2)]] Y0 Y1
       = Inr [[(''A'', 0)], [(''B'', 2)]]"
proof -
  have h: "no_adjacent_overlap rows_store Y0 Y1 [[(''A'', 0)], [(''B'', 2)]]"
    by (simp add: rows_store_overlaps)
  from h merge_overlapping_rows_fixed [OF h] show ?thesis by simp
qed

subsection \<open>Merging rows: header keys\<close>

lemma all_keys_Cons: "all_keys (r # rows) = set (dict_keys r) \<union> all_keys rows"
  by (simp add: all_keys_def)

lemma merge_walk_keys:
  "merge_walk \<sigma> a b acc rest = Inr out \<Longrightarrow> all_keys out = all_keys (acc # rest)"
proof (induction rest arbitrary: acc out)
  case Nil
  then show ?case by auto
next
  case (Cons next_row rest)
  from Cons.prems obtain ovl where ovl: "extent_overlap \<sigma> a b acc next_row = Inr ovl"
    by (auto split: sum.splits)
  show ?case
  proof (cases "0 < ovl")
    case True
    with Cons.prems ovl have "merge_walk \<sigma> a b (dict_update acc next_row) rest = Inr out"
      by simp
    from Cons.IH [OF this] show ?thesis
      by (auto simp: all_keys_Cons dict_update_keys)
  next
    case False
    with Cons.prems ovl obtain out' where out':
      "merge_walk \<sigma> a b next_row rest = Inr out'" "out = acc # out'"
      by (auto split: sum.splits)
    from Cons.IH [OF out'(1)] out'(2) show ?thesis
      by (simp add: all_keys_Cons)
  qed
qed

lemma fold_min_le: "fold min xs (x::real) \<le> x"
proof (induction xs arbitrary: x)
  case Nil
  show ?case by simp
next
  case (Cons y ys)
  have "fold min ys (min y x) \<le> min y x" by (rule Cons.IH)
  then show ?case by simp
qed

lemma fold_max_ge: "(x::real) \<le> fold max xs x"
proof (induction xs arbitrary: x)
  case Nil
  show ?case by simp
next
  case (Cons y ys)
  have "max y x \<le> fold max ys (max y x)" by (rule Cons.IH)
  then show ?case by simp
qed

lemma get_row_extent_ok:
  assumes "row_ok \<sigma> a b r"
  shows "\<exists>lo hi. get_row_extent \<sigma> a b r = Inr (lo, hi) \<and> lo \<le> hi"
proof -
  from assms obtain k l rest where r: "r = (k, l) # rest"
    by (cases r) (auto simp: row_ok_def)
  let ?lo = "fold min (map (\<lambda>line. getattr (\<sigma> line) a) (map snd rest)) (getattr (\<sigma> l) a)"
  let ?hi = "fold max (map (\<lambda>line. getattr (\<sigma> line) b) (map snd rest)) (getattr (\<sigma> l) b)"
  have ext: "get_row_extent \<sigma> a b r = Inr (?lo, ?hi)"
    by (simp add: r get_row_extent_def min_of_def max_of_def dict_values_def)
  have "?lo \<le> getattr (\<sigma> l) a" by (rule fold_min_le)
  also have "getattr (\<sigma> l) a \<le> getattr (\<sigma> l) b"
    using assms by (simp add: r row_ok_def dict_values_def)
  also have "getattr (\<sigma> l) b \<le> ?hi" by (rule fold_max_ge)
  finally show ?thesis using ext by blast
qed

lemma extent_overlap_ok:
  assumes "row_ok \<sigma> a b r" and "row_ok \<sigma> a b r'"
  shows "\<exists>v. extent_overlap \<sigma> a b r r' = Inr v"
proof -
  from get_row_extent_ok [OF assms(1)] obtain lo hi where
    1: "get_row_extent \<sigma> a b r = Inr (lo, hi)" by blast
  from get_row_extent_ok [OF assms(2)] obtain lo' hi' where
    2: "get_row_extent \<sigma> a b r' = Inr (lo', hi')" "lo' \<le> hi'" by blast
  show ?thesis
    by (simp add: extent_overlap_def 1 2 overlap_value)
qed

lemma dict_update_ok:
  assumes "row_ok \<sigma> a b r" and "row_ok \<sigma> a b r'"
  shows "row_ok \<sigma> a b (dict_update r r')"
proof -
  have "dict_update r r' \<noteq> []"
    using assms(1) by (simp add: row_ok_def dict_update_nonempty)
  moreover have "\<forall>l \<in> set (dict_values (dict_update r r')). getattr (\<sigma> l) a \<le> getattr (\<sigma> l) b"
    using assms dict_update_values [of r r'] by (auto simp: row_ok_def list_all_iff)
  ultimately show ?thesis by (simp add: row_ok_def list_all_iff)
qed

lemma merge_walk_returns:
  "row_ok \<sigma> a b acc \<Longrightarrow> list_all (row_ok \<sigma> a b) rest \<Longrightarrow> \<exists>out. merge_walk \<sigma> a b acc rest = Inr out"
proof (induction rest arbitrary: acc)
  case Nil
  show ?case by simp
next
  case (Cons next_row rest)
  then have ok: "row_ok \<sigma> a b next_row" "list_all (row_ok \<sigma> a b) rest" by simp_all
  from extent_overlap_ok [OF Cons.prems(1) ok(1)] obtain ovl where
    ovl: "extent_overlap \<sigma> a b acc next_row = Inr ovl" by blast
  show ?case
  proof (cases "0 < ovl")
    case True
    from Cons.IH [OF dict_update_ok [OF Cons.prems(1) ok(1)] ok(2)] True ovl
    show ?thesis by simp
  next
    case False
    from Cons.IH [OF ok] False ovl show ?thesis by auto
  qed
qed

text \<open>
  Claim C10. Whenever \<^verbatim>\<open>merge_overlapping_rows\<close> returns, the header keys of the output
  rows are exactly the header keys of the input rows; and it does return on every
  sequence of rows that have an extent.
\<close>

theorem merge_overlapping_rows_keys:
  "(\<forall>out. merge_overlapping_rows \<sigma> rows row_min_attr row_max_attr = Inr out \<longrightarrow>
       all_keys out = all_keys rows)
   \<and> (rows_ok \<sigma> row_min_attr row_max_attr rows \<longrightarrow>
        (\<exists>out. merge_overlapping_rows \<sigma> rows row_min_attr row_max_attr = Inr out))"
proof (cases rows)
  case Nil
  then show ?thesis by (simp add: merge_overlapping_rows_def)
next
  case (Cons r rs)
  have "all_keys out = all_keys rows"
    if "merge_overlapping_rows \<sigma> rows row_min_attr row_max_attr = Inr out" for out
    using that Cons merge_walk_keys [of \<sigma> row_min_attr row_max_attr r rs out]
    by (simp add: merge_overlapping_rows_eq_walk merge_rows_walk_def)
  moreover have "\<exists>out. merge_overlapping_rows \<sigma> rows row_min_attr row_max_attr = Inr out"
    if "rows_ok \<sigma> row_min_attr row_max_attr rows"
    using that Cons merge_walk_returns [of \<sigma> row_min_attr row_max_attr r rs]
    by (simp add: merge_overlapping_rows_eq_walk merge_rows_walk_def rows_ok_def)
  ultimately show ?thesis by blast
qed

theorem merge_overlapping_rows_keys_witness:
  "rows_ok rows_store Y0 Y1 [[(''A'', 0)], [(''B'', 1)]]
   \<and> merge_overlapping_rows rows_store [[(''A'', 0)], [(''B'', 1)]] Y0 Y1 = Inr [[(''A'', 0), (''B'', 1)]]
   \<and> all_keys [[(''A'', 0), (''B'', 1)]] = all_keys [[(''A'', 0)], [(''B'', 1)]]
   \<and> all_keys [[(''A'', 0)], [(''B'', 1)]] = {''A'', ''B''}"
proof -
  have ok: "rows_ok rows_store Y0 Y1 [[(''A'', 0)], [(''B'', 1)]]"
    by (simp add: rows_ok_def row_ok_def dict_values_def rows_store_simps new_TextLine_def
          del: One_nat_def)
  have res: "merge_overlapping_rows rows_store [[(''A'', 0)], [(''B'', 1)]] Y0 Y1
               = Inr [[(''A'', 0), (''B'', 1)]]"
    by (simp add: merge_overlapping_rows_eq_walk merge_rows_walk_def rows_store_overlaps
          dict_update_def del: One_nat_def)
  have keys: "all_keys [[(''A'', 0)], [(''B'', 1)]] = {''A'', ''B''}"
    by (auto simp: all_keys_def dict_keys_def)
  from merge_overlapping_rows_keys [of rows_store "[[(''A'', 0)], [(''B'', 1)]]" Y0 Y1] ok res keys
  show ?thesis by simp
qed

subsection \<open>Merging rows: the walk with an accumulator\<close>

lemma min_of_Min: "xs \<noteq> [] \<Longrightarrow> min_of xs = Inr (Min (set xs))"
proof (cases xs)
  case Nil
  then show "xs \<noteq> [] \<Longrightarrow> ?thesis" by simp
next
  case (Cons x rest)
  have "Min (set (x # rest)) = fold min rest x" by (rule Min.set_eq_fold)
  then show ?thesis by (simp add: Cons min_of_def)
qed

lemma max_of_Max: "xs \<noteq> [] \<Longrightarrow> max_of xs = Inr (Max (set xs))"
proof (cases xs)
  case Nil
  then show "xs \<noteq> [] \<Longrightarrow> ?thesis" by simp
next
  case (Cons x rest)
  have "Max (set (x # rest)) = fold max rest x" by (rule Max.set_eq_fold)
  then show ?thesis by (simp add: Cons max_of_def)
qed

lemma get_row_extent_value:
  assumes "r \<noteq> []"
  shows "get_row_extent \<sigma> a b r = Inr (row_extent \<sigma> a b r)"
proof -
  have ne: "map f (dict_values r) \<noteq> []" for f :: "ref \<Rightarrow> real"
    using assms by (simp add: dict_values_def)
  have img: "set (map f (dict_values r)) = f ` set (dict_values r)" for f :: "ref \<Rightarrow> real"
    by simp
  show ?thesis
    unfolding get_row_extent_def row_extent_def min_of_Min [OF ne] max_of_Max [OF ne] img
    by simp
qed

lemma get_row_extent_empty: "get_row_extent \<sigma> a b [] = Inl EmptySequence"
  by (simp add: get_row_extent_def min_of_def dict_values_def)

lemma overlap_interval:
  "lo' \<le> hi' \<Longrightarrow> overlap lo hi lo' hi' = Inr (interval_overlap (lo, hi) (lo', hi'))"
  by (simp add: overlap_def interval_overlap_def max_def min_def)

lemma extent_overlap_value:
  assumes "acc \<noteq> []" and "next_row \<noteq> []"
    and "fst (row_extent \<sigma> a b next_row) \<le> snd (row_extent \<sigma> a b next_row)"
  shows "extent_overlap \<sigma> a b acc next_row
           = Inr (interval_overlap (row_extent \<sigma> a b acc) (row_extent \<sigma> a b next_row))"
proof -
  obtain lo hi where e: "row_extent \<sigma> a b acc = (lo, hi)" by (cases "row_extent \<sigma> a b acc")
  obtain lo' hi' where e': "row_extent \<sigma> a b next_row = (lo', hi')"
    by (cases "row_extent \<sigma> a b next_row")
  from assms(3) have "lo' \<le> hi'" by (simp add: e')
  then show ?thesis
    by (simp add: extent_overlap_def get_row_extent_value [OF assms(1)]
          get_row_extent_value [OF assms(2)] e e' overlap_interval)
qed

lemma extent_overlap_assert:
  assumes "acc \<noteq> []" and "next_row \<noteq> []"
    and "snd (row_extent \<sigma> a b next_row) < fst (row_extent \<sigma> a b next_row)"
  shows "extent_overlap \<sigma> a b acc next_row = Inl AssertionError"
  using assms(3)
  by (simp add: extent_overlap_def get_row_extent_value [OF assms(1)]
        get_row_extent_value [OF assms(2)] split_beta overlap_def)

lemma extent_overlap_empty:
  "acc = [] \<or> next_row = [] \<Longrightarrow> extent_overlap \<sigma> a b acc next_row = Inl EmptySequence"
  by (cases "acc = []")
     (auto simp: extent_overlap_def get_row_extent_empty get_row_extent_value split_beta)

lemma row_ok_extent:
  assumes "row_ok \<sigma> a b r"
  shows "r \<noteq> [] \<and> fst (row_extent \<sigma> a b r) \<le> snd (row_extent \<sigma> a b r)"
proof -
  from assms have ne: "r \<noteq> []" by (simp add: row_ok_def)
  from get_row_extent_ok [OF assms] get_row_extent_value [OF ne, of \<sigma> a b]
  show ?thesis using ne by auto
qed

lemma merge_walk_accumulate:
  "acc \<noteq> [] \<Longrightarrow> list_all (row_ok \<sigma> a b) rest \<Longrightarrow>
     merge_walk \<sigma> a b acc rest = Inr (merge_accumulate \<sigma> a b acc rest)"
proof (induction rest arbitrary: acc)
  case Nil
  show ?case by simp
next
  case (Cons next_row rest)
  then have ok: "row_ok \<sigma> a b next_row" and rest: "list_all (row_ok \<sigma> a b) rest" by simp_all
  from row_ok_extent [OF ok] have ne: "next_row \<noteq> []"
    and wf: "fst (row_extent \<sigma> a b next_row) \<le> snd (row_extent \<sigma> a b next_row)" by simp_all
  have ov: "extent_overlap \<sigma> a b acc next_row
           = Inr (interval_overlap (row_extent \<sigma> a b acc) (row_extent \<sigma> a b next_row))"
    using Cons.prems(1) ne wf by (rule extent_overlap_value)
  have upd: "dict_update acc next_row \<noteq> []"
    using Cons.prems(1) by (rule dict_update_nonempty)
  show ?case
    by (simp add: ov Cons.IH [OF upd rest] Cons.IH [OF ne rest])
qed

lemma wrapped_store_simps:
  "wrapped_store 0 = new_TextLine ''a'' ''F'' (0, 0, 10, 5)"
  "wrapped_store 1 = new_TextLine ''b'' ''F'' (20, 0, 30, 8)"
  "wrapped_store 2 = new_TextLine ''c'' ''F'' (40, 6, 50, 9)"
  "wrapped_store 3 = new_TextLine ''d'' ''F'' (0, 20, 10, 25)"
  "wrapped_store 4 = new_TextLine ''e'' ''F'' (0, 30, 10, 28)"
  by (simp_all add: wrapped_store_def store_of_def)

lemma wrapped_store_extents:
  "row_extent wrapped_store Y0 Y1 [(''A'', 0), (''B'', 1)] = (0, 8)"
  "row_extent wrapped_store Y0 Y1 [(''A'', 1), (''B'', 0)] = (0, 8)"
  "row_extent wrapped_store Y0 Y1 [(''C'', 2)] = (6, 9)"
  "row_extent wrapped_store Y0 Y1 [(''A'', 2)] = (6, 9)"
  "row_extent wrapped_store Y0 Y1 [(''A'', 3)] = (20, 25)"
  "row_extent wrapped_store Y0 Y1 [(''A'', 4)] = (30, 28)"
  "row_extent wrapped_store Y0 Y1 [(''A'', 0), (''B'', 1), (''C'', 2)] = (0, 9)"
  by (simp_all add: row_extent_def dict_values_def wrapped_store_simps new_TextLine_def
        del: One_nat_def)

text \<open>
  Claim C6. \<^verbatim>\<open>merge_overlapping_rows\<close> walks the rows in their order with an accumulator.
  The empty list gives the empty list, and the last accumulator is appended. On rows that
  have fragments with \<open>row_min_attr \<le> row_max_attr\<close> the result is that of the walk
  \<open>merge_rows_spec\<close>, which is written with the extent as a minimum and a maximum over the
  fragments of a row; \<^verbatim>\<open>get_row_extent\<close> computes that extent for every row with a
  fragment. Step by step, for an accumulator and a next row that both have fragments: when
  the extents overlap by a strictly positive amount the result is that of the walk
  continued with the accumulator updated by the next row (\<^verbatim>\<open>dict.update\<close>: the entries of
  the later row replace those of the accumulator under the same key); when the overlap
  is zero the accumulator is the first row of the result and the walk continues with the
  next row as accumulator. A row without fragments has no extent (\<^verbatim>\<open>min\<close> of an empty
  sequence raises), and a next row whose least \<open>row_min_attr\<close> exceeds its greatest
  \<open>row_max_attr\<close> fails the assertion of \<^verbatim>\<open>overlap\<close>.
\<close>

theorem merge_overlapping_rows_walk:
  "merge_overlapping_rows \<sigma> [] row_min_attr row_max_attr = Inr []
   \<and> merge_overlapping_rows \<sigma> [acc] row_min_attr row_max_attr = Inr [acc]
   \<and> (rows_ok \<sigma> row_min_attr row_max_attr rows \<longrightarrow>
        merge_overlapping_rows \<sigma> rows row_min_attr row_max_attr
          = Inr (merge_rows_spec \<sigma> rows row_min_attr row_max_attr))
   \<and> (r \<noteq> [] \<longrightarrow>
        get_row_extent \<sigma> row_min_attr row_max_attr r
          = Inr (Min ((\<lambda>l. getattr (\<sigma> l) row_min_attr) ` set (dict_values r)),
                 Max ((\<lambda>l. getattr (\<sigma> l) row_max_attr) ` set (dict_values r))))
   \<and> (acc \<noteq> [] \<and> next_row \<noteq> []
        \<and> fst (row_extent \<sigma> row_min_attr row_max_attr next_row)
            \<le> snd (row_extent \<sigma> row_min_attr row_max_attr next_row)
        \<and> 0 < interval_overlap (row_extent \<sigma> row_min_attr row_max_attr acc)
                 (row_extent \<sigma> row_min_attr row_max_attr next_row) \<longrightarrow>
        merge_overlapping_rows \<sigma> (acc # next_row # rest) row_min_attr row_max_attr
          = merge_overlapping_rows \<sigma> (dict_update acc next_row # rest) row_min_attr row_max_attr)
   \<and> (acc \<noteq> [] \<and> next_row \<noteq> []
        \<and> fst (row_extent \<sigma> row_min_attr row_max_attr next_row)
            \<le> snd (row_extent \<sigma> row_min_attr row_max_attr next_row)
        \<and> interval_overlap (row_extent \<sigma> row_min_attr row_max_attr acc)
              (row_extent \<sigma> row_min_attr row_max_attr next_row) = 0 \<longrightarrow>
        merge_overlapping_rows \<sigma> (acc # next_row # rest) row_min_attr row_max_attr
          = (case merge_overlapping_rows \<sigma> (next_row # rest) row_min_attr row_max_attr of
               Inl e \<Rightarrow> Inl e
             | Inr out \<Rightarrow> Inr (acc # out)))
   \<and> (acc = [] \<or> next_row = [] \<longrightarrow>
        merge_overlapping_rows \<sigma> (acc # next_row # rest) row_min_attr row_max_attr
          = Inl EmptySequence)
   \<and> (acc \<noteq> [] \<and> next_row \<noteq> []
        \<and> snd (row_extent \<sigma> row_min_attr row_max_attr next_row)
            < fst (row_extent \<sigma> row_min_attr row_max_attr next_row) \<longrightarrow>
        merge_overlapping_rows \<sigma> (acc # next_row # rest) row_min_attr row_max_attr
          = Inl AssertionError)
   \<and> (distinct (dict_keys next_row) \<longrightarrow>
        map_of (dict_update acc next_row) = map_of acc ++ map_of next_row)"
proof -
  let ?merge = "\<lambda>rows. merge_overlapping_rows \<sigma> rows row_min_attr row_max_attr"
  let ?ext = "row_extent \<sigma> row_min_attr row_max_attr"
  have walk: "?merge (first # others) = merge_walk \<sigma> row_min_attr row_max_attr first others"
    for first others
    by (simp add: merge_overlapping_rows_eq_walk merge_rows_walk_def)
  have c1: "?merge [] = Inr []"
    by (simp add: merge_overlapping_rows_def)
  have c2: "?merge [acc] = Inr [acc]"
    by (simp add: walk)
  have c3: "?merge rows = Inr (merge_rows_spec \<sigma> rows row_min_attr row_max_attr)"
    if "rows_ok \<sigma> row_min_attr row_max_attr rows"
  proof (cases rows)
    case Nil
    then show ?thesis by (simp add: c1 merge_rows_spec_def)
  next
    case (Cons first others)
    with that have "first \<noteq> []" "list_all (row_ok \<sigma> row_min_attr row_max_attr) others"
      by (simp_all add: rows_ok_def row_ok_def)
    then show ?thesis
      by (simp add: Cons walk merge_rows_spec_def merge_walk_accumulate)
  qed
  have c4: "get_row_extent \<sigma> row_min_attr row_max_attr r
          = Inr (Min ((\<lambda>l. getattr (\<sigma> l) row_min_attr) ` set (dict_values r)),
                 Max ((\<lambda>l. getattr (\<sigma> l) row_max_attr) ` set (dict_values r)))"
    if "r \<noteq> []"
    using get_row_extent_value [OF that, of \<sigma> row_min_attr row_max_attr]
    by (simp add: row_extent_def)
  have c5: "?merge (acc # next_row # rest) = ?merge (dict_update acc next_row # rest)"
    if "acc \<noteq> []" "next_row \<noteq> []" "fst (?ext next_row) \<le> snd (?ext next_row)"
      "0 < interval_overlap (?ext acc) (?ext next_row)"
    using that(4) by (simp add: walk extent_overlap_value [OF that(1,2,3)])
  have c6: "?merge (acc # next_row # rest)
              = (case ?merge (next_row # rest) of Inl e \<Rightarrow> Inl e | Inr out \<Rightarrow> Inr (acc # out))"
    if "acc \<noteq> []" "next_row \<noteq> []" "fst (?ext next_row) \<le> snd (?ext next_row)"
      "interval_overlap (?ext acc) (?ext next_row) = 0"
    using that(4) by (simp add: walk extent_overlap_value [OF that(1,2,3)])
  have c7: "?merge (acc # next_row # rest) = Inl EmptySequence"
    if "acc = [] \<or> next_row = []"
    by (simp add: walk extent_overlap_empty [OF that])
  have c8: "?merge (acc # next_row # rest) = Inl AssertionError"
    if "acc \<noteq> []" "next_row \<noteq> []" "snd (?ext next_row) < fst (?ext next_row)"
    by (simp add: walk extent_overlap_assert [OF that])
  have c9: "map_of (dict_update acc next_row) = map_of acc ++ map_of next_row"
    if "distinct (dict_keys next_row)"
    using that by (rule dict_update_map_of)
  from c1 c2 c3 c4 c5 c6 c7 c8 c9 show ?thesis by blast
qed

theorem merge_overlapping_rows_walk_witness:
  "rows_ok wrapped_store Y0 Y1 [[(''A'', 0), (''B'', 1)], [(''C'', 2)], [(''A'', 3)]]
   \<and> get_row_extent wrapped_store Y0 Y1 [(''A'', 0), (''B'', 1)] = Inr (0, 8)
   \<and> get_row_extent wrapped_store Y0 Y1 [(''A'', 1), (''B'', 0)] = Inr (0, 8)
   \<and> interval_overlap (0, 8) (6, 9) = 2
   \<and> interval_overlap (0, 9) (20, 25) = 0
   \<and> merge_overlapping_rows wrapped_store [[(''A'', 0), (''B'', 1)], [(''C'', 2)], [(''A'', 3)]] Y0 Y1
       = merge_overlapping_rows wrapped_store [[(''A'', 0), (''B'', 1), (''C'', 2)], [(''A'', 3)]] Y0 Y1
   \<and> merge_overlapping_rows wrapped_store [[(''A'', 0), (''B'', 1), (''C'', 2)], [(''A'', 3)]] Y0 Y1
       = Inr [[(''A'', 0), (''B'', 1), (''C'', 2)], [(''A'', 3)]]
   \<and> merge_overlapping_rows wrapped_store [[(''A'', 0), (''B'', 1)], [(''C'', 2)], [(''A'', 3)]] Y0 Y1
       = Inr (merge_rows_spec wrapped_store [[(''A'', 0), (''B'', 1)], [(''C'', 2)], [(''A'', 3)]] Y0 Y1)
   \<and> merge_rows_spec wrapped_store [[(''A'', 0), (''B'', 1)], [(''C'', 2)], [(''A'', 3)]] Y0 Y1
       = [[(''A'', 0), (''B'', 1), (''C'', 2)], [(''A'', 3)]]
   \<and> merge_overlapping_rows wrapped_store [[(''A'', 0), (''B'', 1)], [(''A'', 2)]] Y0 Y1
       = Inr [[(''A'', 2), (''B'', 1)]]
   \<and> map_of (dict_update [(''A'', 0), (''B'', 1)] [(''A'', 2)])
       = map_of [(''A'', 0::nat), (''B'', 1)] ++ map_of [(''A'', 2)]
   \<and> merge_overlapping_rows wrapped_store [[], [(''C'', 2)]] Y0 Y1 = Inl EmptySequence
   \<and> merge_overlapping_rows wrapped_store [[(''A'', 0)], [(''A'', 4)]] Y0 Y1 = Inl AssertionError"
proof -
  let ?AB = "[(''A'', 0::nat), (''B'', 1)]"
  let ?ABC = "[(''A'', 0::nat), (''B'', 1), (''C'', 2)]"
  let ?rows = "[?AB, [(''C'', 2)], [(''A'', 3)]]"
  let ?rows2 = "[?AB, [(''A'', 2)]]"
  note at = merge_overlapping_rows_walk [where \<sigma> = wrapped_store and row_min_attr = Y0
        and row_max_attr = Y1]
  have ok: "rows_ok wrapped_store Y0 Y1 ?rows"
    by (simp add: rows_ok_def row_ok_def dict_values_def wrapped_store_simps new_TextLine_def
          del: One_nat_def)
  have ok2: "rows_ok wrapped_store Y0 Y1 ?rows2"
    by (simp add: rows_ok_def row_ok_def dict_values_def wrapped_store_simps new_TextLine_def
          del: One_nat_def)
  have ov: "interval_overlap (0, 8) (6, 9) = 2" "interval_overlap (0, 9) (20, 25) = 0"
    by (simp_all add: interval_overlap_def)
  have upd: "dict_update ?AB [(''C'', 2)] = ?ABC"
    by (simp add: dict_update_def)
  have spec: "merge_rows_spec wrapped_store ?rows Y0 Y1 = [?ABC, [(''A'', 3)]]"
    by (simp add: merge_rows_spec_def wrapped_store_extents ov dict_update_def del: One_nat_def)
  have spec2: "merge_rows_spec wrapped_store ?rows2 Y0 Y1 = [[(''A'', 2), (''B'', 1)]]"
    by (simp add: merge_rows_spec_def wrapped_store_extents ov dict_update_def del: One_nat_def)
  have e1: "get_row_extent wrapped_store Y0 Y1 ?AB = Inr (0, 8)"
    using at [where r = ?AB and acc = "[]" and next_row = "[]" and rest = "[]" and rows = "[]"]
      wrapped_store_extents(1)
    by (simp add: row_extent_def)
  have e2: "get_row_extent wrapped_store Y0 Y1 [(''A'', 1), (''B'', 0)] = Inr (0, 8)"
    using at [where r = "[(''A'', 1), (''B'', 0)]" and acc = "[]" and next_row = "[]"
        and rest = "[]" and rows = "[]"]
      wrapped_store_extents(2)
    by (simp add: row_extent_def)
  have s1: "merge_overlapping_rows wrapped_store ?rows Y0 Y1
              = merge_overlapping_rows wrapped_store [?ABC, [(''A'', 3)]] Y0 Y1"
    using at [where acc = ?AB and next_row = "[(''C'', 2)]" and rest = "[[(''A'', 3)]]"
        and r = "[]" and rows = "[]"]
    by (simp add: wrapped_store_extents ov upd del: One_nat_def)
  have s2: "merge_overlapping_rows wrapped_store [?ABC, [(''A'', 3)]] Y0 Y1
              = Inr [?ABC, [(''A'', 3)]]"
    using at [where acc = ?ABC and next_row = "[(''A'', 3)]" and rest = "[]"
        and r = "[]" and rows = "[]"]
      at [where acc = "[(''A'', 3)]" and next_row = "[]" and rest = "[]" and r = "[]"
        and rows = "[]"]
    by (simp add: wrapped_store_extents ov del: One_nat_def)
  have m1: "merge_overlapping_rows wrapped_store ?rows Y0 Y1
              = Inr (merge_rows_spec wrapped_store ?rows Y0 Y1)"
    using at [where rows = ?rows and r = "[]" and acc = "[]" and next_row = "[]" and rest = "[]"]
      ok
    by simp
  have m2: "merge_overlapping_rows wrapped_store ?rows2 Y0 Y1 = Inr [[(''A'', 2), (''B'', 1)]]"
    using at [where rows = ?rows2 and r = "[]" and acc = "[]" and next_row = "[]" and rest = "[]"]
      ok2 spec2
    by simp
  have u: "map_of (dict_update ?AB [(''A'', 2)]) = map_of ?AB ++ map_of [(''A'', 2)]"
    using at [where acc = ?AB and next_row = "[(''A'', 2)]" and rest = "[]" and r = "[]"
        and rows = "[]"]
    by (simp add: dict_keys_def)
  have m3: "merge_overlapping_rows wrapped_store [[], [(''C'', 2)]] Y0 Y1 = Inl EmptySequence"
    using at [where rows = "[]" and r = "[]" and acc = "[]" and next_row = "[(''C'', 2)]"
        and rest = "[]"]
    by simp
  have m4: "merge_overlapping_rows wrapped_store [[(''A'', 0)], [(''A'', 4)]] Y0 Y1
              = Inl AssertionError"
    using at [where rows = "[]" and r = "[]" and acc = "[(''A'', 0)]" and next_row = "[(''A'', 4)]"
        and rest = "[]"]
    by (simp add: wrapped_store_extents del: One_nat_def)
  from ok e1 e2 ov s1 s2 m1 spec m2 u m3 m4 show ?thesis by (simp only: simp_thms)
qed

subsection \<open>Building the table: duplicate keys\<close>

lemma assign_line_Inr:
  assumes "assign_line \<sigma> hs cmin cmax bias row l = Inr row'"
  shows "\<exists>h. select_header \<sigma> hs cmin cmax bias l = Inr h
             \<and> text (\<sigma> h) \<notin> set (dict_keys row) \<and> row' = row @ [(text (\<sigma> h), l)]"
  using assms
  by (auto simp: assign_line_def Let_def dict_setitem_fresh split: sum.splits if_splits)

lemma assign_line_duplicate:
  assumes "select_header \<sigma> hs cmin cmax bias l = Inr h" and "text (\<sigma> h) \<in> set (dict_keys row)"
  shows "assign_line \<sigma> hs cmin cmax bias row l = Inl (ValueError (duplicate_message (text (\<sigma> h))))"
  using assms by (simp add: assign_line_def)

lemma fill_row_append:
  "fill_row \<sigma> hs cmin cmax bias row (ls1 @ ls2) =
     (case fill_row \<sigma> hs cmin cmax bias row ls1 of
        Inl e \<Rightarrow> Inl e
      | Inr row' \<Rightarrow> fill_row \<sigma> hs cmin cmax bias row' ls2)"
  by (induction ls1 arbitrary: row) (auto split: sum.splits)

lemma fill_row_Inr:
  assumes "fill_row \<sigma> hs cmin cmax bias row ls = Inr row'"
  shows "dict_values row' = dict_values row @ ls
         \<and> (distinct (dict_keys row) \<longrightarrow> distinct (dict_keys row'))"
  using assms
proof (induction ls arbitrary: row)
  case Nil
  then show ?case by simp
next
  case (Cons l ls)
  from Cons.prems obtain r where r: "assign_line \<sigma> hs cmin cmax bias row l = Inr r"
    and rest: "fill_row \<sigma> hs cmin cmax bias r ls = Inr row'"
    by (auto split: sum.splits)
  from assign_line_Inr [OF r] obtain h where
    h: "text (\<sigma> h) \<notin> set (dict_keys row)" "r = row @ [(text (\<sigma> h), l)]" by blast
  from Cons.IH [OF rest] h show ?case
    by (auto simp: dict_values_def dict_keys_def)
qed

lemma build_rows_append:
  "build_rows \<sigma> hs cmin cmax bias rl (ks1 @ ks2) =
     (case build_rows \<sigma> hs cmin cmax bias rl ks1 of
        Inl e \<Rightarrow> Inl e
      | Inr rows1 \<Rightarrow>
          (case build_rows \<sigma> hs cmin cmax bias rl ks2 of
             Inl e \<Rightarrow> Inl e
           | Inr rows2 \<Rightarrow> Inr (rows1 @ rows2)))"
  by (induction ks1) (auto split: sum.splits option.splits)

lemma build_rows_returns:
  assumes "\<forall>k \<in> set ks. \<exists>g r. map_of rl k = Some g \<and> fill_row \<sigma> hs cmin cmax bias [] g = Inr r"
  shows "\<exists>rows. build_rows \<sigma> hs cmin cmax bias rl ks = Inr rows"
  using assms by (induction ks) (auto split: sum.splits option.splits)

lemma build_rows_Inr:
  assumes "build_rows \<sigma> hs cmin cmax bias rl ks = Inr rows"
  shows "map dict_values rows = map (\<lambda>k. case map_of rl k of None \<Rightarrow> [] | Some g \<Rightarrow> g) ks
         \<and> list_all (\<lambda>r. distinct (dict_keys r)) rows"
  using assms
proof (induction ks arbitrary: rows)
  case Nil
  then show ?case by simp
next
  case (Cons k ks)
  from Cons.prems obtain g r rows' where
    g: "map_of rl k = Some g" and r: "fill_row \<sigma> hs cmin cmax bias [] g = Inr r"
    and rows': "build_rows \<sigma> hs cmin cmax bias rl ks = Inr rows'" and rows: "rows = r # rows'"
    by (auto split: sum.splits option.splits)
  from fill_row_Inr [OF r] have "dict_values r = g" "distinct (dict_keys r)"
    by (simp_all add: dict_values_def dict_keys_def)
  with Cons.IH [OF rows'] g rows show ?case by simp
qed

lemma sorted_keys_set: "set (sorted_keys reverse_sort rl) = set (dict_keys rl)"
  by (simp add: sorted_keys_def)

lemma sorted_keys_map_of:
  assumes "k \<in> set (sorted_keys reverse_sort rl)"
  shows "\<exists>g. map_of rl k = Some g"
proof -
  from assms have "k \<in> fst ` set rl" by (simp add: sorted_keys_set dict_keys_def)
  then show ?thesis by (cases "map_of rl k") (auto simp: map_of_eq_None_iff)
qed

lemma dup_heap_simps:
  "lists dup_heap 0 = [0, 1]" "lists dup_heap 1 = [2, 3, 4]"
  "objs dup_heap 0 = new_TextLine ''A'' ''F'' (0, 0, 10, 0)"
  "objs dup_heap 1 = new_TextLine ''B'' ''F'' (10, 0, 20, 0)"
  "objs dup_heap 2 = new_TextLine ''w'' ''F'' (12, -3, 15, -3)"
  "objs dup_heap 3 = new_TextLine ''x'' ''F'' (2, -5, 8, -5)"
  "objs dup_heap 4 = new_TextLine ''y'' ''F'' (3, -5, 9, -5)"
  by (simp_all add: dup_heap_def heap_of_def store_of_def)

lemma dup_heap_headers: "sorted_headers dup_heap 0 X0 = [0, 1]"
  by (simp add: sorted_headers_def dup_heap_simps new_TextLine_def del: One_nat_def)

lemma dup_heap_clusters: "row_clusters (objs dup_heap) [2, 3, 4] Y0 True = [[2], [3, 4]]"
  by (simp add: row_clusters_def get_attr_lookup_def sorted_keys_def dict_keys_def
        dup_heap_simps new_TextLine_def)

lemma dup_heap_select:
  "select_header (objs dup_heap) [0, 1] X0 X1 ''centered'' 2 = Inr 1"
  "select_header (objs dup_heap) [0, 1] X0 X1 ''centered'' 3 = Inr 0"
  "select_header (objs dup_heap) [0, 1] X0 X1 ''centered'' 4 = Inr 0"
  by (simp_all add: select_header_def overlap_def dup_heap_simps new_TextLine_def del: One_nat_def)

text \<open>
  Claim C3. Suppose \<^verbatim>\<open>find_table\<close> reaches the line \<open>l\<close> of a row cluster: the clusters
  visited before build without error, the lines \<open>ls1\<close> of the cluster before \<open>l\<close> have
  built the dictionary \<open>row\<close>, and the header chosen for \<open>l\<close> is \<open>h\<close>. If the key
  \<open>h.text\<close> is already in \<open>row\<close>, then \<^verbatim>\<open>find_table\<close> raises the \<^verbatim>\<open>ValueError\<close> whose
  message is \<^verbatim>\<open>duplicate assignment of key '<h.text>'\<close>, and the assignment produces no
  updated row (nothing is overwritten).
\<close>

theorem find_table_duplicate_key:
  assumes "row_clusters (objs heap) (lists heap lines) row_min_attr reverse_sort
             = before @ (ls1 @ l # ls2) # after"
    and "\<forall>c \<in> set before. \<exists>r. fill_row (objs heap) (sorted_headers heap headers col_min_attr)
                                    col_min_attr col_max_attr heading_bias [] c = Inr r"
    and "fill_row (objs heap) (sorted_headers heap headers col_min_attr)
           col_min_attr col_max_attr heading_bias [] ls1 = Inr row"
    and "select_header (objs heap) (sorted_headers heap headers col_min_attr)
           col_min_attr col_max_attr heading_bias l = Inr h"
    and "text (objs heap h) \<in> set (dict_keys row)"
  shows "fst (find_table heap headers lines row_min_attr row_max_attr col_min_attr col_max_attr
                reverse_sort heading_bias)
           = Inl (ValueError (''duplicate assignment of key '' @ [CHR 0x27]
                                @ text (objs heap h) @ [CHR 0x27]))
         \<and> (\<forall>row'. assign_line (objs heap) (sorted_headers heap headers col_min_attr)
                      col_min_attr col_max_attr heading_bias row l \<noteq> Inr row')"
proof -
  let ?\<sigma> = "objs heap" and ?hs = "sorted_headers heap headers col_min_attr"
  let ?rl = "get_attr_lookup ?\<sigma> (lists heap lines) row_min_attr"
  let ?ks = "sorted_keys reverse_sort ?rl"
  let ?get = "\<lambda>k. case map_of ?rl k of None \<Rightarrow> [] | Some row_lines \<Rightarrow> row_lines"
  let ?e = "ValueError (duplicate_message (text (?\<sigma> h)))"
  from assms(1) have "map ?get ?ks = before @ (ls1 @ l # ls2) # after"
    by (simp add: row_clusters_def Let_def)
  then obtain kb k ka where ks: "?ks = kb @ k # ka" and kb: "map ?get kb = before"
    and k: "?get k = ls1 @ l # ls2"
    by (auto simp: map_eq_append_conv map_eq_Cons_conv)
  have some: "\<exists>g. map_of ?rl k' = Some g" if "k' \<in> set ?ks" for k'
    using that by (rule sorted_keys_map_of)
  have "\<forall>k' \<in> set kb. \<exists>g r. map_of ?rl k' = Some g
            \<and> fill_row ?\<sigma> ?hs col_min_attr col_max_attr heading_bias [] g = Inr r"
  proof
    fix k' assume k': "k' \<in> set kb"
    then obtain g where g: "map_of ?rl k' = Some g" using some ks by auto
    then have "g \<in> set before" using kb k' by force
    with assms(2) g show "\<exists>g r. map_of ?rl k' = Some g
            \<and> fill_row ?\<sigma> ?hs col_min_attr col_max_attr heading_bias [] g = Inr r"
      by blast
  qed
  from build_rows_returns [OF this] obtain rows_b where
    rows_b: "build_rows ?\<sigma> ?hs col_min_attr col_max_attr heading_bias ?rl kb = Inr rows_b" ..
  have step: "assign_line ?\<sigma> ?hs col_min_attr col_max_attr heading_bias row l = Inl ?e"
    using assms(4,5) by (rule assign_line_duplicate)
  have "map_of ?rl k = Some (ls1 @ l # ls2)"
    using some [of k] k ks by auto
  moreover have "fill_row ?\<sigma> ?hs col_min_attr col_max_attr heading_bias [] (ls1 @ l # ls2) = Inl ?e"
    by (simp add: fill_row_append assms(3) step)
  ultimately have "build_rows ?\<sigma> ?hs col_min_attr col_max_attr heading_bias ?rl (k # ka) = Inl ?e"
    by simp
  then have "build_rows ?\<sigma> ?hs col_min_attr col_max_attr heading_bias ?rl ?ks = Inl ?e"
    unfolding ks by (simp add: build_rows_append rows_b)
  then have "fst (find_table heap headers lines row_min_attr row_max_attr col_min_attr col_max_attr
                reverse_sort heading_bias) = Inl ?e"
    by (simp add: find_table_def Let_def)
  with step show ?thesis by (simp add: duplicate_message_def)
qed

theorem find_table_duplicate_key_witness:
  "row_clusters (objs dup_heap) (lists dup_heap 1) Y0 True = [[2]] @ ([3] @ 4 # []) # []
   \<and> fill_row (objs dup_heap) (sorted_headers dup_heap 0 X0) X0 X1 ''centered'' [] [2] = Inr [(''B'', 2)]
   \<and> fill_row (objs dup_heap) (sorted_headers dup_heap 0 X0) X0 X1 ''centered'' [] [3] = Inr [(''A'', 3)]
   \<and> select_header (objs dup_heap) (sorted_headers dup_heap 0 X0) X0 X1 ''centered'' 4 = Inr 0
   \<and> text (objs dup_heap 0) \<in> set (dict_keys [(''A'', 3::nat)])
   \<and> fst (find_table dup_heap 0 1 Y0 Y1 X0 X1 True ''centered'')
       = Inl (ValueError (''duplicate assignment of key '' @ [CHR 0x27] @ ''A'' @ [CHR 0x27]))"
proof -
  have c: "row_clusters (objs dup_heap) (lists dup_heap 1) Y0 True = [[2]] @ ([3] @ 4 # []) # []"
    by (simp add: dup_heap_simps dup_heap_clusters del: One_nat_def)
  have f2: "fill_row (objs dup_heap) (sorted_headers dup_heap 0 X0) X0 X1 ''centered'' [] [2]
              = Inr [(''B'', 2)]"
    by (simp add: dup_heap_headers assign_line_def dup_heap_select dict_keys_def
          dup_heap_simps new_TextLine_def del: One_nat_def)
  have f3: "fill_row (objs dup_heap) (sorted_headers dup_heap 0 X0) X0 X1 ''centered'' [] [3]
              = Inr [(''A'', 3)]"
    by (simp add: dup_heap_headers assign_line_def dup_heap_select dict_keys_def
          dup_heap_simps new_TextLine_def del: One_nat_def)
  have s4: "select_header (objs dup_heap) (sorted_headers dup_heap 0 X0) X0 X1 ''centered'' 4 = Inr 0"
    by (simp add: dup_heap_headers dup_heap_select del: One_nat_def)
  have k: "text (objs dup_heap 0) \<in> set (dict_keys [(''A'', 3::nat)])"
    by (simp add: dict_keys_def dup_heap_simps new_TextLine_def)
  have b: "\<forall>c \<in> set [[2]]. \<exists>r. fill_row (objs dup_heap) (sorted_headers dup_heap 0 X0)
                                    X0 X1 ''centered'' [] c = Inr r"
    using f2 by simp
  from find_table_duplicate_key [OF c b f3 s4 k, of Y1] c f2 f3 s4 k
  show ?thesis by (simp add: dup_heap_simps new_TextLine_def del: One_nat_def)
qed

text \<open>
  When \<^verbatim>\<open>find_table\<close> returns, every line of every cluster is the value of exactly one
  entry of its row, and the keys of a row are distinct.
\<close>

lemma find_table_rows_complete:
  assumes "fst (find_table heap headers lines row_min_attr row_max_attr col_min_attr col_max_attr
                  reverse_sort heading_bias) = Inr rows"
  shows "map dict_values rows = row_clusters (objs heap) (lists heap lines) row_min_attr reverse_sort
         \<and> list_all (\<lambda>r. distinct (dict_keys r)) rows"
  using assms build_rows_Inr [of "objs heap" "sorted_headers heap headers col_min_attr" col_min_attr
      col_max_attr heading_bias "get_attr_lookup (objs heap) (lists heap lines) row_min_attr"
      "sorted_keys reverse_sort (get_attr_lookup (objs heap) (lists heap lines) row_min_attr)" rows]
  by (simp add: find_table_def Let_def row_clusters_def)

subsection \<open>Selecting from tuples\<close>

text \<open>
  \<^verbatim>\<open>min\<close> over tuples: the only error is the \<^verbatim>\<open>TypeError\<close> of a tie; a result is a
  minimum and no other object has the same number; with pairwise different numbers there
  is a result; a tie at the minimum between two objects raises.
\<close>

lemma tuple_lt_error: "tuple_lt a b = Inl e \<Longrightarrow> e = TypeError"
  by (auto simp: tuple_lt_def split: if_splits)

lemma min_loop_error: "min_loop cur items = Inl e \<Longrightarrow> e = TypeError"
  by (induction items arbitrary: cur) (auto split: sum.splits dest: tuple_lt_error)

lemma min_loop_Inr:
  assumes "min_loop cur items = Inr m"
  shows "m \<in> set (cur # items) \<and> (\<forall>x \<in> set (cur # items). fst m \<le> fst x)
         \<and> (\<forall>x \<in> set (cur # items). fst x = fst m \<longrightarrow> snd x = snd m)"
  using assms
proof (induction items arbitrary: cur)
  case Nil
  then show ?case by auto
next
  case (Cons item items)
  from Cons.prems obtain b where b: "tuple_lt item cur = Inr b"
    and rest: "min_loop (if b then item else cur) items = Inr m"
    by (auto split: sum.splits)
  show ?case
  proof (cases "fst item = fst cur")
    case True
    with b have "snd item = snd cur" "\<not> b"
      by (auto simp: tuple_lt_def split: if_splits)
    with True have same: "item = cur" by (simp add: prod_eq_iff)
    from rest \<open>\<not> b\<close> have "min_loop cur items = Inr m" by simp
    from Cons.IH [OF this] same show ?thesis by simp
  next
    case False
    with b have bdef: "b = (fst item < fst cur)"
      by (auto simp: tuple_lt_def)
    show ?thesis
    proof (cases b)
      case True
      with rest have "min_loop item items = Inr m" by simp
      from Cons.IH [OF this] have
        m: "m \<in> set (item # items)" and
        le: "\<forall>x \<in> set (item # items). fst m \<le> fst x" and
        eq: "\<forall>x \<in> set (item # items). fst x = fst m \<longrightarrow> snd x = snd m"
        by blast+
      from le have "fst m \<le> fst item" by simp
      with True bdef have "fst m < fst cur" by simp
      with m le eq show ?thesis by auto
    next
      case nb: False
      with rest have "min_loop cur items = Inr m" by simp
      from Cons.IH [OF this] have
        m: "m \<in> set (cur # items)" and
        le: "\<forall>x \<in> set (cur # items). fst m \<le> fst x" and
        eq: "\<forall>x \<in> set (cur # items). fst x = fst m \<longrightarrow> snd x = snd m"
        by blast+
      from le have "fst m \<le> fst cur" by simp
      with nb bdef False have "fst m < fst item" by simp
      with m le eq show ?thesis by auto
    qed
  qed
qed

lemma min_loop_returns:
  assumes "inj_on fst (set (cur # items))"
  shows "\<exists>m. min_loop cur items = Inr m"
  using assms
proof (induction items arbitrary: cur)
  case Nil
  show ?case by simp
next
  case (Cons item items)
  have lt: "tuple_lt item cur = Inr (fst item < fst cur)"
  proof (cases "fst item = fst cur")
    case True
    with inj_onD [OF Cons.prems, of item cur] have "item = cur" by simp
    then show ?thesis by (simp add: tuple_lt_def)
  next
    case False
    then show ?thesis by (simp add: tuple_lt_def)
  qed
  have "set ((if fst item < fst cur then item else cur) # items) \<subseteq> set (cur # item # items)"
    by auto
  with Cons.prems have "inj_on fst (set ((if fst item < fst cur then item else cur) # items))"
    by (rule inj_on_subset)
  from Cons.IH [OF this] lt show ?case by simp
qed

lemma py_min_unique:
  assumes "xs \<noteq> []" and "inj_on fst (set xs)"
  shows "\<exists>m \<in> set xs. py_min xs = Inr m \<and> (\<forall>x \<in> set xs. fst m \<le> fst x)"
proof -
  from assms(1) obtain x rest where xs: "xs = x # rest" by (cases xs) auto
  from min_loop_returns [of x rest] assms(2) obtain m where m: "min_loop x rest = Inr m"
    by (auto simp: xs)
  from min_loop_Inr [OF m] m show ?thesis by (simp add: xs py_min_def)
qed

lemma py_min_tie:
  assumes "x \<in> set xs" and "y \<in> set xs" and "fst x = fst y" and "snd x \<noteq> snd y"
    and "\<forall>z \<in> set xs. fst x \<le> fst z"
  shows "py_min xs = Inl TypeError"
proof -
  from assms(1) obtain c rest where xs: "xs = c # rest" by (cases xs) auto
  show ?thesis
  proof (cases "min_loop c rest")
    case (Inl e)
    then show ?thesis by (simp add: xs py_min_def min_loop_error)
  next
    case (Inr m)
    from min_loop_Inr [OF Inr] have
      m: "m \<in> set xs" and le: "\<forall>z \<in> set xs. fst m \<le> fst z"
      and eq: "\<forall>z \<in> set xs. fst z = fst m \<longrightarrow> snd z = snd m"
      unfolding xs by blast+
    from le assms(1) assms(5) m have "fst x = fst m" by force
    with eq assms(1,2,3) have "snd x = snd m" "snd y = snd m" by auto
    with assms(4) show ?thesis by simp
  qed
qed

lemma min_loop_sorted:
  assumes "\<forall>x \<in> set items. fst cur \<le> fst x"
    and "\<forall>x \<in> set items. fst x = fst cur \<longrightarrow> snd x = snd cur"
  shows "min_loop cur items = Inr cur"
  using assms
proof (induction items)
  case Nil
  show ?case by simp
next
  case (Cons item items)
  then have "tuple_lt item cur = Inr False"
    by (auto simp: tuple_lt_def)
  with Cons show ?case by simp
qed

lemma tuple_gt_error: "tuple_gt a b = Inl e \<Longrightarrow> e = TypeError"
  by (auto simp: tuple_gt_def split: if_splits)

lemma max_loop_error: "max_loop cur items = Inl e \<Longrightarrow> e = TypeError"
  by (induction items arbitrary: cur) (auto split: sum.splits dest: tuple_gt_error)

lemma max_loop_sorted_tie:
  assumes "sorted (map fst (cur # items))"
    and "x \<in> set (cur # items)" and "y \<in> set (cur # items)"
    and "fst x = fst y" and "snd x \<noteq> snd y"
  shows "max_loop cur items = Inl TypeError"
  using assms
proof (induction items arbitrary: cur)
  case Nil
  then show ?case by auto
next
  case (Cons item items)
  from Cons.prems(1) have le: "fst cur \<le> fst item" and above: "\<forall>z \<in> set items. fst item \<le> fst z"
    and sorted_item: "sorted (map fst (item # items))" and sorted_cur: "sorted (map fst (cur # items))"
    by auto
  show ?case
  proof (cases "fst item = fst cur")
    case True
    show ?thesis
    proof (cases "snd item = snd cur")
      case False
      with True show ?thesis by (simp add: tuple_gt_def)
    next
      case same: True
      with True have "item = cur" by (simp add: prod_eq_iff)
      with Cons.prems have "x \<in> set (cur # items)" "y \<in> set (cur # items)" by auto
      from Cons.IH [OF sorted_cur this Cons.prems(4,5)] True same
      show ?thesis by (simp add: tuple_gt_def)
    qed
  next
    case False
    with le have lt: "fst cur < fst item" by simp
    have "x \<noteq> cur"
    proof
      assume "x = cur"
      with Cons.prems(3,4) lt above have "y = cur" by force
      with \<open>x = cur\<close> Cons.prems(5) show False by simp
    qed
    moreover have "y \<noteq> cur"
    proof
      assume "y = cur"
      with Cons.prems(2,4) lt above have "x = cur" by force
      with \<open>y = cur\<close> Cons.prems(5) show False by simp
    qed
    ultimately have "x \<in> set (item # items)" "y \<in> set (item # items)"
      using Cons.prems(2,3) by auto
    from Cons.IH [OF sorted_item this Cons.prems(4,5)] lt
    show ?thesis by (simp add: tuple_gt_def)
  qed
qed

lemma max_loop_sorted:
  assumes "sorted (map fst (cur # items))" and "inj_on fst (set (cur # items))"
  shows "max_loop cur items = Inr (last (cur # items))"
  using assms
proof (induction items arbitrary: cur)
  case Nil
  show ?case by simp
next
  case (Cons item items)
  from Cons.prems(1) have le: "fst cur \<le> fst item" and sorted_item: "sorted (map fst (item # items))"
    and sorted_cur: "sorted (map fst (cur # items))"
    by auto
  show ?case
  proof (cases "fst item = fst cur")
    case True
    with inj_onD [OF Cons.prems(2), of item cur] have same: "item = cur" by simp
    have "set (cur # items) \<subseteq> set (cur # item # items)" by auto
    with Cons.prems(2) have "inj_on fst (set (cur # items))" by (rule inj_on_subset)
    from Cons.IH [OF sorted_cur this] same show ?thesis by (simp add: tuple_gt_def)
  next
    case False
    with le have lt: "fst cur < fst item" by simp
    have "set (item # items) \<subseteq> set (cur # item # items)" by auto
    with Cons.prems(2) have "inj_on fst (set (item # items))" by (rule inj_on_subset)
    from Cons.IH [OF sorted_item this] lt show ?thesis by (simp add: tuple_gt_def)
  qed
qed

subsection \<open>Building the table: the choice of the header\<close>

lemma overlaps_and_headers_value:
  assumes "getattr (\<sigma> l) col_min \<le> getattr (\<sigma> l) col_max"
  shows "overlaps_and_headers \<sigma> col_min col_max (getattr (\<sigma> l) col_min) (getattr (\<sigma> l) col_max) hs
           = Inr (map (\<lambda>h. (col_overlap \<sigma> col_min col_max h l, h)) hs)"
  using assms by (induction hs) (simp_all add: overlap_value col_overlap_def)

lemma possible_headers_value:
  "filter (\<lambda>oh. fst oh \<noteq> 0) (map (\<lambda>h. (col_overlap \<sigma> col_min col_max h l, h)) hs)
     = map (\<lambda>h. (col_overlap \<sigma> col_min col_max h l, h))
         (filter (\<lambda>h. col_overlap \<sigma> col_min col_max h l \<noteq> 0) hs)"
  by (induction hs) simp_all

lemma select_header_no_overlap:
  assumes "getattr (\<sigma> l) col_min \<le> getattr (\<sigma> l) col_max"
    and "\<forall>h \<in> set hs. col_overlap \<sigma> col_min col_max h l = 0"
  shows "select_header \<sigma> hs col_min col_max heading_bias l =
           (if heading_bias = ''centered'' then
              map_sum id snd (py_min (map (\<lambda>h. (center_distance \<sigma> col_min col_max h l, h)) hs))
            else if heading_bias = ''min'' then
              map_sum id snd
                (py_max (map (\<lambda>h. (getattr (\<sigma> h) col_min, h))
                          (filter (\<lambda>h. getattr (\<sigma> h) col_min \<le> getattr (\<sigma> l) col_min) hs)))
            else Inl (ValueError ''unrecognized heading bias''))"
proof -
  have "filter (\<lambda>h. col_overlap \<sigma> col_min col_max h l \<noteq> 0) hs = []"
    using assms(2) by (simp add: filter_empty_conv)
  then show ?thesis
    using assms(1)
    by (simp add: select_header_def Let_def overlaps_and_headers_value possible_headers_value
          center_distance_def)
qed

lemma select_header_overlapping:
  assumes "getattr (\<sigma> l) col_min \<le> getattr (\<sigma> l) col_max"
    and "h1 \<in> set hs" and "h2 \<in> set hs" and "h1 \<noteq> h2"
    and "col_overlap \<sigma> col_min col_max h1 l \<noteq> 0" and "col_overlap \<sigma> col_min col_max h2 l \<noteq> 0"
  shows "select_header \<sigma> hs col_min col_max heading_bias l =
           map_sum id snd
             (py_min (map (\<lambda>h. (getattr (\<sigma> h) col_min, h))
                       (filter (\<lambda>h. col_overlap \<sigma> col_min col_max h l \<noteq> 0) hs)))"
proof -
  let ?F = "filter (\<lambda>h. col_overlap \<sigma> col_min col_max h l \<noteq> 0) hs"
  have "h1 \<in> set ?F" "h2 \<in> set ?F" using assms by simp_all
  with assms(4) obtain a b rest where F: "?F = a # b # rest"
    by (cases ?F; cases "tl ?F") auto
  show ?thesis
    using assms(1)
    by (simp add: select_header_def Let_def overlaps_and_headers_value possible_headers_value F
          comp_def)
qed

lemma sorted_headers_sorted:
  "sorted (map (\<lambda>h. getattr (objs heap h) col_min) (sorted_headers heap headers col_min))"
  by (simp add: sorted_headers_def)

lemma sorted_headers_set:
  "set (sorted_headers heap headers col_min) = set (lists heap headers)"
  by (simp add: sorted_headers_def)

subsection \<open>Fallback to the nearest centre\<close>

lemma select_header_centered_nearest:
  assumes "getattr (\<sigma> l) col_min \<le> getattr (\<sigma> l) col_max"
    and "\<forall>h \<in> set hs. col_overlap \<sigma> col_min col_max h l = 0"
    and "hs \<noteq> []"
    and "inj_on (\<lambda>h. center_distance \<sigma> col_min col_max h l) (set hs)"
  shows "\<exists>h \<in> set hs. select_header \<sigma> hs col_min col_max ''centered'' l = Inr h
           \<and> (\<forall>h' \<in> set hs. center_distance \<sigma> col_min col_max h l
                               \<le> center_distance \<sigma> col_min col_max h' l)"
proof -
  let ?xs = "map (\<lambda>h. (center_distance \<sigma> col_min col_max h l, h)) hs"
  have "inj_on fst (set ?xs)"
    using assms(4) by (auto simp: inj_on_def)
  moreover have "?xs \<noteq> []" using assms(3) by simp
  ultimately obtain m where m: "m \<in> set ?xs" "py_min ?xs = Inr m" "\<forall>x \<in> set ?xs. fst m \<le> fst x"
    using py_min_unique [of ?xs] by blast
  from m(1) obtain h where h: "h \<in> set hs" "m = (center_distance \<sigma> col_min col_max h l, h)"
    by auto
  have "select_header \<sigma> hs col_min col_max ''centered'' l = Inr h"
    by (simp add: select_header_no_overlap [OF assms(1,2)] m(2) h(2))
  moreover have "\<forall>h' \<in> set hs. center_distance \<sigma> col_min col_max h l
                               \<le> center_distance \<sigma> col_min col_max h' l"
    using m(3) h(2) by simp
  ultimately show ?thesis using h(1) by blast
qed

lemma select_header_centered_tie:
  assumes "getattr (\<sigma> l) col_min \<le> getattr (\<sigma> l) col_max"
    and "\<forall>h \<in> set hs. col_overlap \<sigma> col_min col_max h l = 0"
    and "h1 \<in> set hs" and "h2 \<in> set hs" and "h1 \<noteq> h2"
    and "center_distance \<sigma> col_min col_max h1 l = center_distance \<sigma> col_min col_max h2 l"
    and "\<forall>h \<in> set hs. center_distance \<sigma> col_min col_max h1 l \<le> center_distance \<sigma> col_min col_max h l"
  shows "select_header \<sigma> hs col_min col_max ''centered'' l = Inl TypeError"
proof -
  let ?xs = "map (\<lambda>h. (center_distance \<sigma> col_min col_max h l, h)) hs"
  have "py_min ?xs = Inl TypeError"
  proof (rule py_min_tie)
    show "(center_distance \<sigma> col_min col_max h1 l, h1) \<in> set ?xs" using assms(3) by simp
    show "(center_distance \<sigma> col_min col_max h2 l, h2) \<in> set ?xs" using assms(4) by simp
    show "fst (center_distance \<sigma> col_min col_max h1 l, h1) = fst (center_distance \<sigma> col_min col_max h2 l, h2)"
      using assms(6) by simp
    show "snd (center_distance \<sigma> col_min col_max h1 l, h1) \<noteq> snd (center_distance \<sigma> col_min col_max h2 l, h2)"
      using assms(5) by simp
    show "\<forall>z \<in> set ?xs. fst (center_distance \<sigma> col_min col_max h1 l, h1) \<le> fst z"
      using assms(7) by simp
  qed
  then show ?thesis
    by (simp add: select_header_no_overlap [OF assms(1,2)])
qed

lemma centered_tie_heap_simps:
  "lists centered_tie_heap 0 = [0, 1]" "lists centered_tie_heap 1 = [2]"
  "objs centered_tie_heap 0 = new_TextLine ''A'' ''F'' (0, 0, 4, 0)"
  "objs centered_tie_heap 1 = new_TextLine ''B'' ''F'' (8, 0, 12, 0)"
  "objs centered_tie_heap 2 = new_TextLine ''x'' ''F'' (5, -5, 7, -5)"
  by (simp_all add: centered_tie_heap_def heap_of_def store_of_def)

text \<open>
  Claim C1 (the code departs from it). With headers \<open>A\<close> (columns 0 to 4) and \<open>B\<close>
  (columns 8 to 12) and one body line in columns 5 to 7, the line overlaps no header and
  both header centres are at distance 4 from its centre. Under \<^verbatim>\<open>heading_bias="centered"\<close>
  \<^verbatim>\<open>find_table\<close> does not pick the first header: the comparison of the tuples
  \<^verbatim>\<open>(4.0, B) < (4.0, A)\<close> inside \<^verbatim>\<open>min\<close> raises \<^verbatim>\<open>TypeError\<close>. (Lemma
  \<open>select_header_centered_tie\<close> is the general statement, \<open>select_header_centered_nearest\<close>
  the case without ties.)
\<close>

theorem find_table_centered_tie_raises:
  "fst (find_table centered_tie_heap 0 1 Y0 Y1 X0 X1 True ''centered'') = Inl TypeError"
  by (simp add: find_table_def sorted_headers_def get_attr_lookup_def sorted_keys_def dict_keys_def
        assign_line_def select_header_def overlap_def py_min_def tuple_lt_def
        centered_tie_heap_simps new_TextLine_def del: One_nat_def)

text \<open>
  A tie between an item and the current minimum raises also when the nearest header is
  unique: here \<open>A\<close> and \<open>B\<close> are both at distance 96 and are compared before \<open>C\<close>, at
  distance 46, is reached.
\<close>

lemma find_table_centered_tie_before_nearest_raises:
  "fst (find_table centered_far_heap 0 1 Y0 Y1 X0 X1 True ''centered'') = Inl TypeError"
  by (simp add: find_table_def sorted_headers_def get_attr_lookup_def sorted_keys_def dict_keys_def
        assign_line_def select_header_def overlap_def py_min_def tuple_lt_def
        centered_far_heap_def heap_of_def store_of_def new_TextLine_def del: One_nat_def)

subsection \<open>Several overlapping headers\<close>

lemma select_header_overlapping_leftmost:
  assumes "getattr (\<sigma> l) col_min \<le> getattr (\<sigma> l) col_max"
    and "sorted (map (\<lambda>h. getattr (\<sigma> h) col_min) hs)"
    and "h1 \<in> set hs" and "h2 \<in> set hs" and "h1 \<noteq> h2"
    and "col_overlap \<sigma> col_min col_max h1 l \<noteq> 0" and "col_overlap \<sigma> col_min col_max h2 l \<noteq> 0"
    and "\<forall>h \<in> set hs. col_overlap \<sigma> col_min col_max h l \<noteq> 0 \<longrightarrow> h \<noteq> h1 \<longrightarrow>
           getattr (\<sigma> h1) col_min < getattr (\<sigma> h) col_min"
  shows "select_header \<sigma> hs col_min col_max heading_bias l = Inr h1"
proof -
  let ?F = "filter (\<lambda>h. col_overlap \<sigma> col_min col_max h l \<noteq> 0) hs"
  let ?xs = "map (\<lambda>h. (getattr (\<sigma> h) col_min, h)) ?F"
  have sorted: "sorted (map (\<lambda>h. getattr (\<sigma> h) col_min) ?F)"
    using assms(2) by (rule sorted_filter)
  have mem: "h1 \<in> set ?F" using assms(3,6) by simp
  then obtain a rest where F: "?F = a # rest" by (cases ?F) auto
  have "a = h1"
  proof (rule ccontr)
    assume "a \<noteq> h1"
    with mem F have "h1 \<in> set rest" by auto
    with sorted F have "getattr (\<sigma> a) col_min \<le> getattr (\<sigma> h1) col_min" by auto
    moreover have "a \<in> set ?F" by (simp add: F)
    then have "a \<in> set hs" "col_overlap \<sigma> col_min col_max a l \<noteq> 0" by simp_all
    with assms(8) \<open>a \<noteq> h1\<close> have "getattr (\<sigma> h1) col_min < getattr (\<sigma> a) col_min" by blast
    ultimately show False by simp
  qed
  have rest: "\<forall>h \<in> set rest. getattr (\<sigma> h1) col_min \<le> getattr (\<sigma> h) col_min
                \<and> (getattr (\<sigma> h) col_min = getattr (\<sigma> h1) col_min \<longrightarrow> h = h1)"
  proof
    fix h assume h: "h \<in> set rest"
    then have "h \<in> set ?F" by (simp add: F)
    then have "h \<in> set hs" "col_overlap \<sigma> col_min col_max h l \<noteq> 0" by simp_all
    with assms(8) have "h \<noteq> h1 \<longrightarrow> getattr (\<sigma> h1) col_min < getattr (\<sigma> h) col_min" by blast
    then show "getattr (\<sigma> h1) col_min \<le> getattr (\<sigma> h) col_min
                \<and> (getattr (\<sigma> h) col_min = getattr (\<sigma> h1) col_min \<longrightarrow> h = h1)"
      by (cases "h = h1") auto
  qed
  have "min_loop (getattr (\<sigma> h1) col_min, h1) (map (\<lambda>h. (getattr (\<sigma> h) col_min, h)) rest)
          = Inr (getattr (\<sigma> h1) col_min, h1)"
    by (rule min_loop_sorted) (use rest in auto)
  then have "py_min ?xs = Inr (getattr (\<sigma> h1) col_min, h1)"
    by (simp add: F \<open>a = h1\<close> py_min_def)
  then show ?thesis
    by (simp add: select_header_overlapping [OF assms(1,3,4,5,6,7)])
qed

lemma select_header_overlapping_tie:
  assumes "getattr (\<sigma> l) col_min \<le> getattr (\<sigma> l) col_max"
    and "h1 \<in> set hs" and "h2 \<in> set hs" and "h1 \<noteq> h2"
    and "col_overlap \<sigma> col_min col_max h1 l \<noteq> 0" and "col_overlap \<sigma> col_min col_max h2 l \<noteq> 0"
    and "getattr (\<sigma> h1) col_min = getattr (\<sigma> h2) col_min"
    and "\<forall>h \<in> set hs. col_overlap \<sigma> col_min col_max h l \<noteq> 0 \<longrightarrow>
           getattr (\<sigma> h1) col_min \<le> getattr (\<sigma> h) col_min"
  shows "select_header \<sigma> hs col_min col_max heading_bias l = Inl TypeError"
proof -
  let ?F = "filter (\<lambda>h. col_overlap \<sigma> col_min col_max h l \<noteq> 0) hs"
  let ?xs = "map (\<lambda>h. (getattr (\<sigma> h) col_min, h)) ?F"
  have "py_min ?xs = Inl TypeError"
  proof (rule py_min_tie)
    show "(getattr (\<sigma> h1) col_min, h1) \<in> set ?xs" using assms(2,5) by simp
    show "(getattr (\<sigma> h2) col_min, h2) \<in> set ?xs" using assms(3,6) by simp
    show "fst (getattr (\<sigma> h1) col_min, h1) = fst (getattr (\<sigma> h2) col_min, h2)"
      using assms(7) by simp
    show "snd (getattr (\<sigma> h1) col_min, h1) \<noteq> snd (getattr (\<sigma> h2) col_min, h2)"
      using assms(4) by simp
    show "\<forall>z \<in> set ?xs. fst (getattr (\<sigma> h1) col_min, h1) \<le> fst z"
      using assms(8) by simp
  qed
  then show ?thesis
    by (simp add: select_header_overlapping [OF assms(1,2,3,4,5,6)])
qed

lemma stacked_headers_heap_simps:
  "lists stacked_headers_heap 0 = [0, 1]" "lists stacked_headers_heap 1 = [2]"
  "objs stacked_headers_heap 0 = new_TextLine ''Last'' ''F'' (0, 10, 10, 20)"
  "objs stacked_headers_heap 1 = new_TextLine ''Name'' ''F'' (0, 0, 12, 10)"
  "objs stacked_headers_heap 2 = new_TextLine ''x'' ''F'' (2, -5, 8, -5)"
  by (simp_all add: stacked_headers_heap_def heap_of_def store_of_def)

text \<open>
  Claim C4 (the code departs from it). With two headers that both start at column 0 and a
  body line that overlaps both, \<^verbatim>\<open>find_table\<close> assigns the line to neither: the
  comparison \<^verbatim>\<open>(0, h2) < (0, h1)\<close> inside \<^verbatim>\<open>min\<close> raises \<^verbatim>\<open>TypeError\<close>. (Lemma
  \<open>select_header_overlapping_tie\<close> is the general statement,
  \<open>select_header_overlapping_leftmost\<close> the case of a single leftmost overlapping header.)
\<close>

theorem find_table_overlapping_tie_raises:
  "fst (find_table stacked_headers_heap 0 1 Y0 Y1 X0 X1 True ''centered'') = Inl TypeError"
  by (simp add: find_table_def sorted_headers_def get_attr_lookup_def sorted_keys_def dict_keys_def
        assign_line_def select_header_def overlap_def py_min_def tuple_lt_def
        stacked_headers_heap_simps new_TextLine_def del: One_nat_def)

subsection \<open>Fallback to the nearest header on the left\<close>

lemma select_header_min_none:
  assumes "getattr (\<sigma> l) col_min \<le> getattr (\<sigma> l) col_max"
    and "\<forall>h \<in> set hs. col_overlap \<sigma> col_min col_max h l = 0"
    and "\<forall>h \<in> set hs. \<not> getattr (\<sigma> h) col_min \<le> getattr (\<sigma> l) col_min"
  shows "select_header \<sigma> hs col_min col_max ''min'' l = Inl EmptySequence"
proof -
  have "filter (\<lambda>h. getattr (\<sigma> h) col_min \<le> getattr (\<sigma> l) col_min) hs = []"
    using assms(3) by (simp add: filter_empty_conv)
  then show ?thesis
    by (simp add: select_header_no_overlap [OF assms(1,2)] py_max_def)
qed

lemma select_header_min_nearest:
  assumes "getattr (\<sigma> l) col_min \<le> getattr (\<sigma> l) col_max"
    and "\<forall>h \<in> set hs. col_overlap \<sigma> col_min col_max h l = 0"
    and "sorted (map (\<lambda>h. getattr (\<sigma> h) col_min) hs)"
    and "h0 \<in> set hs" and "getattr (\<sigma> h0) col_min \<le> getattr (\<sigma> l) col_min"
    and "inj_on (\<lambda>h. getattr (\<sigma> h) col_min)
           {h \<in> set hs. getattr (\<sigma> h) col_min \<le> getattr (\<sigma> l) col_min}"
  shows "\<exists>h \<in> set hs. select_header \<sigma> hs col_min col_max ''min'' l = Inr h
           \<and> getattr (\<sigma> h) col_min \<le> getattr (\<sigma> l) col_min
           \<and> (\<forall>h' \<in> set hs. getattr (\<sigma> h') col_min \<le> getattr (\<sigma> l) col_min \<longrightarrow>
                  getattr (\<sigma> h') col_min \<le> getattr (\<sigma> h) col_min)"
proof -
  let ?C = "filter (\<lambda>h. getattr (\<sigma> h) col_min \<le> getattr (\<sigma> l) col_min) hs"
  let ?xs = "map (\<lambda>h. (getattr (\<sigma> h) col_min, h)) ?C"
  have "h0 \<in> set ?C" using assms(4,5) by simp
  then obtain c rest where C: "?C = c # rest" by (cases ?C) auto
  have sortedC: "sorted (map (\<lambda>h. getattr (\<sigma> h) col_min) ?C)"
    using assms(3) by (rule sorted_filter)
  then have sorted_xs: "sorted (map fst ?xs)" by (simp add: comp_def)
  have inj: "inj_on fst (set ?xs)"
    using assms(6) by (auto simp: inj_on_def)
  have "max_loop (getattr (\<sigma> c) col_min, c) (map (\<lambda>h. (getattr (\<sigma> h) col_min, h)) rest)
          = Inr (last ?xs)"
    using max_loop_sorted [of "(getattr (\<sigma> c) col_min, c)" "map (\<lambda>h. (getattr (\<sigma> h) col_min, h)) rest"]
      sorted_xs inj unfolding C by simp
  then have res: "py_max ?xs = Inr (last ?xs)"
    by (simp add: C py_max_def)
  have last: "last ?xs = (getattr (\<sigma> (last ?C)) col_min, last ?C)"
    using C by (simp add: last_map)
  have sel: "select_header \<sigma> hs col_min col_max ''min'' l = Inr (last ?C)"
    by (simp add: select_header_no_overlap [OF assms(1,2)] res last)
  have lastC: "last ?C \<in> set ?C" using C by simp
  have "getattr (\<sigma> h') col_min \<le> getattr (\<sigma> (last ?C)) col_min" if "h' \<in> set ?C" for h'
  proof -
    from that obtain i where i: "i < length ?C" "?C ! i = h'"
      unfolding in_set_conv_nth by blast
    have ne: "?C \<noteq> []" using C by simp
    then have len: "length ?C - 1 < length ?C" by (simp add: length_greater_0_conv)
    have "map (\<lambda>h. getattr (\<sigma> h) col_min) ?C ! i
            \<le> map (\<lambda>h. getattr (\<sigma> h) col_min) ?C ! (length ?C - 1)"
      using sortedC i(1) by (intro sorted_nth_mono) auto
    then have "getattr (\<sigma> (?C ! i)) col_min \<le> getattr (\<sigma> (?C ! (length ?C - 1))) col_min"
      using i(1) len by (simp only: nth_map)
    then show ?thesis
      unfolding i(2) last_conv_nth [OF ne] .
  qed
  with sel lastC show ?thesis by auto
qed

lemma select_header_min_tie:
  assumes "getattr (\<sigma> l) col_min \<le> getattr (\<sigma> l) col_max"
    and "\<forall>h \<in> set hs. col_overlap \<sigma> col_min col_max h l = 0"
    and "sorted (map (\<lambda>h. getattr (\<sigma> h) col_min) hs)"
    and "h1 \<in> set hs" and "h2 \<in> set hs" and "h1 \<noteq> h2"
    and "getattr (\<sigma> h1) col_min = getattr (\<sigma> h2) col_min"
    and "getattr (\<sigma> h1) col_min \<le> getattr (\<sigma> l) col_min"
  shows "select_header \<sigma> hs col_min col_max ''min'' l = Inl TypeError"
proof -
  let ?C = "filter (\<lambda>h. getattr (\<sigma> h) col_min \<le> getattr (\<sigma> l) col_min) hs"
  let ?xs = "map (\<lambda>h. (getattr (\<sigma> h) col_min, h)) ?C"
  have mem: "h1 \<in> set ?C" "h2 \<in> set ?C" using assms(4,5,7,8) by simp_all
  then obtain c rest where C: "?C = c # rest" by (cases ?C) auto
  have "sorted (map (\<lambda>h. getattr (\<sigma> h) col_min) ?C)"
    using assms(3) by (rule sorted_filter)
  then have sorted_xs: "sorted (map fst ?xs)" by (simp add: comp_def)
  have "max_loop (getattr (\<sigma> c) col_min, c) (map (\<lambda>h. (getattr (\<sigma> h) col_min, h)) rest)
          = Inl TypeError"
  proof (rule max_loop_sorted_tie)
    show "sorted (map fst ((getattr (\<sigma> c) col_min, c) # map (\<lambda>h. (getattr (\<sigma> h) col_min, h)) rest))"
      using sorted_xs unfolding C by simp
    show "(getattr (\<sigma> h1) col_min, h1)
            \<in> set ((getattr (\<sigma> c) col_min, c) # map (\<lambda>h. (getattr (\<sigma> h) col_min, h)) rest)"
      using mem(1) unfolding C by auto
    show "(getattr (\<sigma> h2) col_min, h2)
            \<in> set ((getattr (\<sigma> c) col_min, c) # map (\<lambda>h. (getattr (\<sigma> h) col_min, h)) rest)"
      using mem(2) unfolding C by auto
    show "fst (getattr (\<sigma> h1) col_min, h1) = fst (getattr (\<sigma> h2) col_min, h2)"
      using assms(7) by simp
    show "snd (getattr (\<sigma> h1) col_min, h1) \<noteq> snd (getattr (\<sigma> h2) col_min, h2)"
      using assms(6) by simp
  qed
  then have "py_max ?xs = Inl TypeError"
    by (simp add: C py_max_def)
  then show ?thesis
    by (simp add: select_header_no_overlap [OF assms(1,2)])
qed

lemma min_bias_heap_simps:
  "lists min_bias_heap 0 = [0, 1, 2]" "lists min_bias_heap 1 = [3]"
  "objs min_bias_heap 0 = new_TextLine ''A'' ''F'' (1, 0, 2, 0)"
  "objs min_bias_heap 1 = new_TextLine ''B'' ''F'' (1, 0, 3, 0)"
  "objs min_bias_heap 2 = new_TextLine ''C'' ''F'' (5, 0, 6, 0)"
  "objs min_bias_heap 3 = new_TextLine ''x'' ''F'' (7, -5, 8, -5)"
  by (simp_all add: min_bias_heap_def heap_of_def store_of_def)

text \<open>
  Claim C5 (the code departs from it). With headers starting at columns 1, 1 and 5 and a
  body line starting at column 7 that overlaps none of them, under \<^verbatim>\<open>heading_bias="min"\<close>
  \<^verbatim>\<open>find_table\<close> does not assign the line to the header at column 5: the comparison
  \<^verbatim>\<open>(1, B) > (1, A)\<close> inside \<^verbatim>\<open>max\<close> raises \<^verbatim>\<open>TypeError\<close>. (Lemma
  \<open>select_header_min_tie\<close> is the general statement, \<open>select_header_min_nearest\<close> the case
  without ties, \<open>select_header_min_none\<close> the case of no header at or before the line.)
\<close>

theorem find_table_min_bias_tie_raises:
  "fst (find_table min_bias_heap 0 1 Y0 Y1 X0 X1 True ''min'') = Inl TypeError"
  by (simp add: find_table_def sorted_headers_def get_attr_lookup_def sorted_keys_def dict_keys_def
        assign_line_def select_header_def overlap_def py_max_def tuple_gt_def
        min_bias_heap_simps new_TextLine_def del: One_nat_def)

subsection \<open>The objects of the caller\<close>

lemma unsorted_heap_simps:
  "lists unsorted_heap 0 = [1, 0]" "lists unsorted_heap 1 = [2, 3]"
  "objs unsorted_heap 0 = new_TextLine ''A'' ''F'' (0, 0, 10, 0)"
  "objs unsorted_heap 1 = new_TextLine ''B'' ''F'' (10, 0, 20, 0)"
  "objs unsorted_heap 2 = new_TextLine ''x'' ''F'' (2, -5, 8, -5)"
  "objs unsorted_heap 3 = new_TextLine ''y'' ''F'' (9, -7, 12, -7)"
  by (simp_all add: unsorted_heap_def heap_of_def store_of_def)

text \<open>Allocation and the writes of the loops touch no object below \<open>n\<close>.\<close>

lemma unchanged_below_refl: "unchanged_below n h h"
  by (simp add: unchanged_below_def)

lemma unchanged_below_trans:
  "unchanged_below n h h1 \<Longrightarrow> unchanged_below n h1 h2 \<Longrightarrow> unchanged_below n h h2"
  by (simp add: unchanged_below_def)

lemma unchanged_below_next: "unchanged_below n h h' \<Longrightarrow> n \<le> next_ref h \<Longrightarrow> n \<le> next_ref h'"
  by (simp add: unchanged_below_def)

lemma new_list_frame: "n \<le> next_ref h \<Longrightarrow> unchanged_below n h (snd (new_list xs h))"
  by (simp add: unchanged_below_def new_list_def)

lemma new_lookup_frame: "n \<le> next_ref h \<Longrightarrow> unchanged_below n h (snd (new_lookup h))"
  by (simp add: unchanged_below_def new_lookup_def)

lemma new_row_frame: "n \<le> next_ref h \<Longrightarrow> unchanged_below n h (snd (new_row h))"
  by (simp add: unchanged_below_def new_row_def)

lemma list_append_frame: "n \<le> r \<Longrightarrow> unchanged_below n h (list_append r x h)"
  by (simp add: unchanged_below_def list_append_def)

lemma lookup_setitem_frame: "n \<le> r \<Longrightarrow> unchanged_below n h (lookup_setitem r k v h)"
  by (simp add: unchanged_below_def lookup_setitem_def)

lemma row_setitem_frame: "n \<le> r \<Longrightarrow> unchanged_below n h (row_setitem r k v h)"
  by (simp add: unchanged_below_def row_setitem_def)

lemma dict_setitem_values_set:
  "snd ` set (dict_setitem k v d) \<subseteq> insert v (snd ` set d)"
  by (induction d) auto

lemma lookup_add_frame:
  assumes "n \<le> result" and "n \<le> next_ref h"
    and "\<forall>g \<in> snd ` set (lookups h result). n \<le> g"
  shows "unchanged_below n h (lookup_add attr result l h)
         \<and> (\<forall>g \<in> snd ` set (lookups (lookup_add attr result l h) result). n \<le> g)"
proof (cases "map_of (lookups h result) (getattr (objs h l) attr)")
  case (Some g)
  then have "(getattr (objs h l) attr, g) \<in> set (lookups h result)" by (rule map_of_SomeD)
  then have "n \<le> g" using assms(3) by force
  then have "unchanged_below n h (list_append g l h)" by (rule list_append_frame)
  moreover have "lookups (list_append g l h) result = lookups h result"
    by (simp add: list_append_def)
  ultimately show ?thesis using Some assms(3) by (simp add: lookup_add_def)
next
  case None
  let ?g = "next_ref h"
  let ?h1 = "snd (new_list [] h)"
  let ?h2 = "lookup_setitem result (getattr (objs h l) attr) ?g ?h1"
  let ?h3 = "list_append ?g l ?h2"
  have eq: "lookup_add attr result l h = ?h3"
    using None by (simp add: lookup_add_def new_list_def Let_def)
  have "unchanged_below n h ?h1" using assms(2) by (rule new_list_frame)
  moreover have "unchanged_below n ?h1 ?h2" using assms(1) by (rule lookup_setitem_frame)
  moreover have "unchanged_below n ?h2 ?h3" using assms(2) by (rule list_append_frame)
  ultimately have frame: "unchanged_below n h ?h3"
    by (blast intro: unchanged_below_trans)
  have "lookups ?h3 result = dict_setitem (getattr (objs h l) attr) ?g (lookups h result)"
    by (simp add: list_append_def lookup_setitem_def new_list_def)
  then have "snd ` set (lookups ?h3 result) \<subseteq> insert ?g (snd ` set (lookups h result))"
    by (simp only: dict_setitem_values_set)
  moreover have "\<forall>g \<in> insert ?g (snd ` set (lookups h result)). n \<le> g"
    using assms(2,3) by simp
  ultimately have "\<forall>g \<in> snd ` set (lookups ?h3 result). n \<le> g" by blast
  with frame show ?thesis unfolding eq by simp
qed

lemma fold_lookup_add_frame:
  assumes "n \<le> result" and "n \<le> next_ref h"
    and "\<forall>g \<in> snd ` set (lookups h result). n \<le> g"
  shows "unchanged_below n h (fold (lookup_add attr result) ls h)"
  using assms(2,3)
proof (induction ls arbitrary: h)
  case Nil
  show ?case by (simp add: unchanged_below_refl)
next
  case (Cons l ls)
  from lookup_add_frame [OF assms(1) Cons.prems] have
    step: "unchanged_below n h (lookup_add attr result l h)"
    and inv: "\<forall>g \<in> snd ` set (lookups (lookup_add attr result l h) result). n \<le> g"
    by simp_all
  from unchanged_below_next [OF step Cons.prems(1)]
  have "unchanged_below n (lookup_add attr result l h) (fold (lookup_add attr result) ls (lookup_add attr result l h))"
    using inv by (rule Cons.IH)
  with step show ?case by (simp add: unchanged_below_trans)
qed

lemma get_attr_lookup_heap_frame:
  assumes "n \<le> next_ref h"
  shows "unchanged_below n h (snd (get_attr_lookup_heap h lines attr))
         \<and> n \<le> fst (get_attr_lookup_heap h lines attr)"
proof -
  let ?h1 = "snd (new_lookup h)"
  have 1: "unchanged_below n h ?h1" using assms by (rule new_lookup_frame)
  have "unchanged_below n ?h1 (fold (lookup_add attr (next_ref h)) (lists ?h1 lines) ?h1)"
  proof (rule fold_lookup_add_frame)
    show "n \<le> next_ref h" by (rule assms)
    show "n \<le> next_ref ?h1" using assms by (simp add: new_lookup_def)
    show "\<forall>g \<in> snd ` set (lookups ?h1 (next_ref h)). n \<le> g" by (simp add: new_lookup_def)
  qed
  with 1 have "unchanged_below n h (fold (lookup_add attr (next_ref h)) (lists ?h1 lines) ?h1)"
    by (rule unchanged_below_trans)
  then show ?thesis
    using assms by (simp add: get_attr_lookup_heap_def new_lookup_def Let_def)
qed

lemma fill_row_heap_frame:
  "n \<le> row \<Longrightarrow> unchanged_below n h (snd (fill_row_heap headers cmin cmax bias row ls h))"
proof (induction ls arbitrary: h)
  case Nil
  show ?case by (simp add: unchanged_below_refl)
next
  case (Cons l ls)
  show ?case
  proof (cases "select_header (objs h) (lists h headers) cmin cmax bias l")
    case (Inl e)
    then show ?thesis by (simp add: unchanged_below_refl)
  next
    case (Inr header)
    show ?thesis
    proof (cases "text (objs h header) \<in> set (dict_keys (rowdicts h row))")
      case True
      with Inr show ?thesis by (simp add: unchanged_below_refl)
    next
      case False
      let ?h1 = "row_setitem row (text (objs h header)) l h"
      have "unchanged_below n h ?h1" using Cons.prems by (rule row_setitem_frame)
      moreover have "unchanged_below n ?h1 (snd (fill_row_heap headers cmin cmax bias row ls ?h1))"
        using Cons.prems by (rule Cons.IH)
      ultimately show ?thesis
        using Inr False by (simp add: unchanged_below_trans)
    qed
  qed
qed

lemma build_rows_heap_frame:
  "n \<le> rows \<Longrightarrow> n \<le> next_ref h \<Longrightarrow>
     unchanged_below n h (snd (build_rows_heap headers cmin cmax bias row_lookup rows ks h))"
proof (induction ks arbitrary: h)
  case Nil
  show ?case by (simp add: unchanged_below_refl)
next
  case (Cons k ks)
  show ?case
  proof (cases "map_of (lookups h row_lookup) k")
    case None
    then show ?thesis by (simp add: unchanged_below_refl)
  next
    case (Some row_lines)
    let ?row = "next_ref h"
    let ?h1 = "snd (new_row h)"
    let ?h2 = "list_append rows ?row ?h1"
    let ?fill = "fill_row_heap headers cmin cmax bias ?row (lists ?h2 row_lines) ?h2"
    have 1: "unchanged_below n h ?h1" using Cons.prems(2) by (rule new_row_frame)
    have 2: "unchanged_below n ?h1 ?h2" using Cons.prems(1) by (rule list_append_frame)
    have 3: "unchanged_below n ?h2 (snd ?fill)" using Cons.prems(2) by (rule fill_row_heap_frame)
    from 1 2 3 have frame: "unchanged_below n h (snd ?fill)"
      by (blast intro: unchanged_below_trans)
    have unfold: "build_rows_heap headers cmin cmax bias row_lookup rows (k # ks) h =
        (case ?fill of (Some e, h3) \<Rightarrow> (Some e, h3)
         | (None, h3) \<Rightarrow> build_rows_heap headers cmin cmax bias row_lookup rows ks h3)"
      using Some by (simp add: new_row_def Let_def)
    show ?thesis
    proof (cases "fst ?fill")
      case (Some e)
      with frame show ?thesis unfolding unfold by (simp add: split_beta)
    next
      case None
      from unchanged_below_next [OF frame Cons.prems(2)]
      have "unchanged_below n (snd ?fill)
              (snd (build_rows_heap headers cmin cmax bias row_lookup rows ks (snd ?fill)))"
        using Cons.prems(1) by (intro Cons.IH)
      with frame None show ?thesis
        unfolding unfold by (simp add: split_beta unchanged_below_trans)
    qed
  qed
qed

lemma find_table_heap_unchanged:
  "unchanged_below (next_ref h) h
     (snd (find_table_heap h headers lines row_min_attr row_max_attr col_min_attr col_max_attr
             reverse_sort heading_bias))"
proof -
  let ?n = "next_ref h"
  let ?h1 = "snd (new_list (sort_key (\<lambda>l. getattr (objs h l) col_min_attr) (lists h headers)) h)"
  let ?gal = "get_attr_lookup_heap ?h1 lines row_min_attr"
  let ?h2 = "snd ?gal"
  let ?h3 = "snd (new_list [] ?h2)"
  let ?keys = "if reverse_sort then rev (sort (dict_keys (lookups ?h3 (fst ?gal))))
               else sort (dict_keys (lookups ?h3 (fst ?gal)))"
  let ?build = "build_rows_heap ?n col_min_attr col_max_attr heading_bias (fst ?gal)
                  (next_ref ?h2) ?keys ?h3"
  have 1: "unchanged_below ?n h ?h1" by (rule new_list_frame) simp
  note n1 = unchanged_below_next [OF 1 order_refl]
  from get_attr_lookup_heap_frame [OF n1] have 2: "unchanged_below ?n ?h1 ?h2" by simp
  note n2 = unchanged_below_next [OF 2 n1]
  have 3: "unchanged_below ?n ?h2 ?h3" using n2 by (rule new_list_frame)
  note n3 = unchanged_below_next [OF 3 n2]
  have 4: "unchanged_below ?n ?h3 (snd ?build)" using n2 n3 by (rule build_rows_heap_frame)
  from 1 2 3 4 have all: "unchanged_below ?n h (snd ?build)"
    by (blast intro: unchanged_below_trans)
  have "snd (find_table_heap h headers lines row_min_attr row_max_attr col_min_attr col_max_attr
             reverse_sort heading_bias) = snd ?build"
    by (simp add: find_table_heap_def new_list_def Let_def split_beta split: option.splits)
  with all show ?thesis by simp
qed

text \<open>The heap version computes the values of the functions above.\<close>

lemma setdefault_append_fresh:
  "k \<notin> fst ` set d \<Longrightarrow> setdefault_append k l d = d @ [(k, [l])]"
  by (induction d) auto

lemma setdefault_append_decode:
  assumes "distinct (map snd d)" and "map_of d k = Some g"
  shows "map (\<lambda>kg. (fst kg, (f(g := f g @ [l])) (snd kg))) d
           = setdefault_append k l (map (\<lambda>kg. (fst kg, f (snd kg))) d)"
  using assms
proof (induction d)
  case Nil
  then show ?case by simp
next
  case (Cons kg d)
  show ?case
  proof (cases "fst kg = k")
    case True
    with Cons.prems(2) have g: "snd kg = g" by (cases kg) simp
    with Cons.prems(1) have "g \<notin> snd ` set d" by simp
    then have "\<forall>kg' \<in> set d. snd kg' \<noteq> g" by force
    then have "map (\<lambda>kg. (fst kg, (f(g := f g @ [l])) (snd kg))) d
                 = map (\<lambda>kg. (fst kg, f (snd kg))) d"
      by (intro map_cong) auto
    with True g show ?thesis by simp
  next
    case False
    with Cons.prems(2) have rest: "map_of d k = Some g" by (cases kg) (simp split: if_splits)
    then have "(k, g) \<in> set d" by (rule map_of_SomeD)
    then have "g \<in> snd ` set d" by force
    with Cons.prems(1) have "snd kg \<noteq> g" by auto
    with False Cons.IH [OF _ rest] Cons.prems(1) show ?thesis by simp
  qed
qed

lemma lookup_add_refines:
  assumes "lookup_inv h result"
  shows "lookup_inv (lookup_add attr result l h) result
         \<and> decode_lookup (lookup_add attr result l h) result
             = setdefault_append (getattr (objs h l) attr) l (decode_lookup h result)
         \<and> objs (lookup_add attr result l h) = objs h"
proof (cases "map_of (lookups h result) (getattr (objs h l) attr)")
  case (Some g)
  let ?h' = "list_append g l h"
  have eq: "lookup_add attr result l h = ?h'" using Some by (simp add: lookup_add_def)
  have lk: "lookups ?h' = lookups h" and nx: "next_ref ?h' = next_ref h" and ob: "objs ?h' = objs h"
    and ls: "lists ?h' = (lists h)(g := lists h g @ [l])"
    by (simp_all add: list_append_def)
  have inv: "lookup_inv ?h' result" using assms by (simp add: lookup_inv_def lk nx)
  have "decode_lookup ?h' result
          = setdefault_append (getattr (objs h l) attr) l (decode_lookup h result)"
    unfolding decode_lookup_def lk ls
    using assms Some by (intro setdefault_append_decode) (simp_all add: lookup_inv_def)
  with inv ob show ?thesis unfolding eq by simp
next
  case None
  let ?k = "getattr (objs h l) attr"
  let ?g = "next_ref h"
  let ?h' = "list_append ?g l (lookup_setitem result ?k ?g (snd (new_list [] h)))"
  have eq: "lookup_add attr result l h = ?h'"
    using None by (simp add: lookup_add_def new_list_def Let_def)
  have fresh_key: "?k \<notin> fst ` set (lookups h result)"
    using None by (simp add: map_of_eq_None_iff)
  then have "?k \<notin> set (dict_keys (lookups h result))" by (simp add: dict_keys_def)
  then have lk_res: "lookups ?h' result = lookups h result @ [(?k, ?g)]"
    by (simp add: list_append_def lookup_setitem_def new_list_def dict_setitem_fresh)
  have nx: "next_ref ?h' = next_ref h + 1" and ob: "objs ?h' = objs h"
    and ls: "lists ?h' = (lists h)(?g := [l])"
    by (simp_all add: list_append_def lookup_setitem_def new_list_def)
  have old: "\<forall>g \<in> snd ` set (lookups h result). result < g \<and> g < ?g"
    using assms by (simp add: lookup_inv_def)
  then have notin: "?g \<notin> snd ` set (lookups h result)" by auto
  have inv: "lookup_inv ?h' result"
    using assms old notin by (auto simp: lookup_inv_def lk_res nx)
  from notin have "\<forall>kg \<in> set (lookups h result). snd kg \<noteq> ?g" by force
  then have "map (\<lambda>kg. (fst kg, ((lists h)(?g := [l])) (snd kg))) (lookups h result)
          = map (\<lambda>kg. (fst kg, lists h (snd kg))) (lookups h result)"
    by (intro map_cong) auto
  then have "decode_lookup ?h' result = decode_lookup h result @ [(?k, [l])]"
    by (simp add: decode_lookup_def lk_res ls)
  moreover have "?k \<notin> fst ` set (decode_lookup h result)"
    using fresh_key by (simp add: decode_lookup_def image_image)
  ultimately have "decode_lookup ?h' result = setdefault_append ?k l (decode_lookup h result)"
    by (simp add: setdefault_append_fresh)
  with inv ob show ?thesis unfolding eq by simp
qed

lemma fold_lookup_add_refines:
  assumes "lookup_inv h result"
  shows "lookup_inv (fold (lookup_add attr result) ls h) result
         \<and> decode_lookup (fold (lookup_add attr result) ls h) result
             = fold (\<lambda>l d. setdefault_append (getattr (objs h l) attr) l d) ls (decode_lookup h result)
         \<and> objs (fold (lookup_add attr result) ls h) = objs h"
  using assms
proof (induction ls arbitrary: h)
  case Nil
  then show ?case by simp
next
  case (Cons l ls)
  from lookup_add_refines [OF Cons.prems, of attr l] have
    inv: "lookup_inv (lookup_add attr result l h) result"
    and dec: "decode_lookup (lookup_add attr result l h) result
             = setdefault_append (getattr (objs h l) attr) l (decode_lookup h result)"
    and ob: "objs (lookup_add attr result l h) = objs h"
    by simp_all
  from Cons.IH [OF inv] show ?case by (simp add: dec ob)
qed

lemma get_attr_lookup_heap_refines:
  assumes "lines < next_ref h"
  shows "decode_lookup (snd (get_attr_lookup_heap h lines attr)) (fst (get_attr_lookup_heap h lines attr))
           = get_attr_lookup (objs h) (lists h lines) attr
         \<and> lookup_inv (snd (get_attr_lookup_heap h lines attr)) (fst (get_attr_lookup_heap h lines attr))
         \<and> fst (get_attr_lookup_heap h lines attr) = next_ref h"
proof -
  let ?h1 = "snd (new_lookup h)"
  have inv: "lookup_inv ?h1 (next_ref h)"
    by (simp add: lookup_inv_def new_lookup_def)
  have l1: "lists ?h1 lines = lists h lines" "objs ?h1 = objs h"
    "decode_lookup ?h1 (next_ref h) = []"
    by (simp_all add: new_lookup_def decode_lookup_def)
  from fold_lookup_add_refines [OF inv, of attr "lists h lines"]
  show ?thesis
    by (simp add: get_attr_lookup_heap_def get_attr_lookup_def new_lookup_def Let_def l1
          decode_lookup_def)
qed

lemma map_of_map_values:
  "map_of (map (\<lambda>kg. (fst kg, f (snd kg))) d) k = map_option f (map_of d k)"
  by (induction d) auto

lemma decode_lookup_map_of:
  "map_of (decode_lookup h rl) k = map_option (lists h) (map_of (lookups h rl) k)"
  unfolding decode_lookup_def by (rule map_of_map_values)

lemma fill_row_heap_refines:
  "(case fill_row_heap headers cmin cmax bias row ls h of
      (r, h') \<Rightarrow>
        lists h' = lists h \<and> lookups h' = lookups h \<and> objs h' = objs h
        \<and> next_ref h' = next_ref h
        \<and> (\<forall>r'. r' \<noteq> row \<longrightarrow> rowdicts h' r' = rowdicts h r')
        \<and> fill_row (objs h) (lists h headers) cmin cmax bias (rowdicts h row) ls
            = (case r of Some e \<Rightarrow> Inl e | None \<Rightarrow> Inr (rowdicts h' row)))"
proof (induction ls arbitrary: h)
  case Nil
  show ?case by simp
next
  case (Cons l ls)
  show ?case
  proof (cases "select_header (objs h) (lists h headers) cmin cmax bias l")
    case (Inl e)
    then show ?thesis by (simp add: assign_line_def)
  next
    case (Inr header)
    show ?thesis
    proof (cases "text (objs h header) \<in> set (dict_keys (rowdicts h row))")
      case True
      with Inr show ?thesis by (simp add: assign_line_def)
    next
      case False
      let ?h1 = "row_setitem row (text (objs h header)) l h"
      have h1: "lists ?h1 = lists h" "lookups ?h1 = lookups h" "objs ?h1 = objs h"
        "next_ref ?h1 = next_ref h" "\<forall>r'. r' \<noteq> row \<longrightarrow> rowdicts ?h1 r' = rowdicts h r'"
        "rowdicts ?h1 row = dict_setitem (text (objs h header)) l (rowdicts h row)"
        by (simp_all add: row_setitem_def)
      have step: "assign_line (objs h) (lists h headers) cmin cmax bias (rowdicts h row) l
                    = Inr (rowdicts ?h1 row)"
        using Inr False by (simp add: assign_line_def h1)
      from Cons.IH [of ?h1] Inr False step h1 show ?thesis
        by (simp add: split_beta)
    qed
  qed
qed

lemma build_rows_heap_refines:
  assumes "rows < next_ref h" and "\<forall>r \<in> set (lists h rows). r < next_ref h"
    and "rows \<noteq> headers" and "\<forall>g \<in> snd ` set (lookups h rl). g \<noteq> rows"
  shows "(case build_rows_heap headers cmin cmax bias rl rows ks h of
            (r, h') \<Rightarrow>
              next_ref h \<le> next_ref h'
              \<and> (\<forall>r' < next_ref h. rowdicts h' r' = rowdicts h r')
              \<and> (case r of
                    Some e \<Rightarrow>
                      build_rows (objs h) (lists h headers) cmin cmax bias (decode_lookup h rl) ks
                        = Inl e
                  | None \<Rightarrow>
                      (\<exists>new. lists h' rows = lists h rows @ new
                         \<and> build_rows (objs h) (lists h headers) cmin cmax bias
                               (decode_lookup h rl) ks
                             = Inr (map (rowdicts h') new))))"
  using assms
proof (induction ks arbitrary: h)
  case Nil
  show ?case by simp
next
  case (Cons k ks)
  show ?case
  proof (cases "map_of (lookups h rl) k")
    case None
    then show ?thesis by (simp add: decode_lookup_map_of)
  next
    case (Some g)
    then have "(k, g) \<in> set (lookups h rl)" by (rule map_of_SomeD)
    then have "g \<in> snd ` set (lookups h rl)" by force
    with Cons.prems(4) have g: "g \<noteq> rows" by blast
    let ?row = "next_ref h"
    let ?h2 = "list_append rows ?row (snd (new_row h))"
    have h2: "lists ?h2 = (lists h)(rows := lists h rows @ [?row])" "lookups ?h2 = lookups h"
      "objs ?h2 = objs h" "next_ref ?h2 = next_ref h + 1"
      "rowdicts ?h2 = (rowdicts h)(?row := [])"
      by (simp_all add: list_append_def new_row_def)
    let ?fill = "fill_row_heap headers cmin cmax bias ?row (lists h g) ?h2"
    let ?h3 = "snd ?fill"
    have unfold: "build_rows_heap headers cmin cmax bias rl rows (k # ks) h =
        (case ?fill of (Some e, h3) \<Rightarrow> (Some e, h3)
         | (None, h3) \<Rightarrow> build_rows_heap headers cmin cmax bias rl rows ks h3)"
      using Some g by (simp add: new_row_def Let_def h2 list_append_def)
    from fill_row_heap_refines [where headers = headers and cmin = cmin and cmax = cmax
        and bias = bias and row = ?row and ls = "lists h g" and h = ?h2]
    have h3: "lists ?h3 = lists ?h2" "lookups ?h3 = lookups h" "objs ?h3 = objs h"
      "next_ref ?h3 = next_ref h + 1"
      "\<forall>r'. r' \<noteq> ?row \<longrightarrow> rowdicts ?h3 r' = rowdicts ?h2 r'"
      and fill: "fill_row (objs h) (lists h headers) cmin cmax bias [] (lists h g)
            = (case fst ?fill of Some e \<Rightarrow> Inl e | None \<Rightarrow> Inr (rowdicts ?h3 ?row))"
      using Cons.prems(3) by (simp_all add: split_beta h2)
    have below: "\<forall>r' < next_ref h. rowdicts ?h3 r' = rowdicts h r'"
      using h3(5) by (simp add: h2)
    have look: "map_of (decode_lookup h rl) k = Some (lists h g)"
      using Some by (simp add: decode_lookup_map_of)
    show ?thesis
    proof (cases "fst ?fill")
      case (Some e)
      with fill look below h3(4) show ?thesis
        unfolding unfold by (simp add: split_beta)
    next
      case None
      have dec: "decode_lookup ?h3 rl = decode_lookup h rl"
      proof -
        have "\<forall>kg \<in> set (lookups h rl). snd kg \<noteq> rows"
          using Cons.prems(4) by force
        then have "map (\<lambda>kg. (fst kg, ((lists h)(rows := lists h rows @ [?row])) (snd kg))) (lookups h rl)
                    = map (\<lambda>kg. (fst kg, lists h (snd kg))) (lookups h rl)"
          by (intro map_cong) auto
        then show ?thesis by (simp add: decode_lookup_def h3 h2)
      qed
      have hdr: "lists ?h3 headers = lists h headers"
        using Cons.prems(3) by (simp add: h3 h2)
      have p1: "rows < next_ref ?h3" using Cons.prems(1) by (simp add: h3)
      have p2: "\<forall>r \<in> set (lists ?h3 rows). r < next_ref ?h3"
        using Cons.prems(2) by (auto simp: h3 h2)
      have p4: "\<forall>g \<in> snd ` set (lookups ?h3 rl). g \<noteq> rows"
        using Cons.prems(4) by (simp add: h3)
      let ?rest = "build_rows_heap headers cmin cmax bias rl rows ks ?h3"
      note IH0 = Cons.IH [OF p1 p2 Cons.prems(3) p4, unfolded split_beta dec hdr h3(3)]
      have IH: "next_ref ?h3 \<le> next_ref (snd ?rest)"
        "\<forall>r' < next_ref ?h3. rowdicts (snd ?rest) r' = rowdicts ?h3 r'"
        "(case fst ?rest of
            Some e \<Rightarrow> build_rows (objs h) (lists h headers) cmin cmax bias (decode_lookup h rl) ks = Inl e
          | None \<Rightarrow> (\<exists>new. lists (snd ?rest) rows = lists ?h3 rows @ new
                 \<and> build_rows (objs h) (lists h headers) cmin cmax bias (decode_lookup h rl) ks
                     = Inr (map (rowdicts (snd ?rest)) new)))"
        using IH0 by blast+
      have eq: "build_rows_heap headers cmin cmax bias rl rows (k # ks) h = ?rest"
        unfolding unfold using None by (simp add: split_beta)
      have n: "next_ref h \<le> next_ref (snd ?rest)" using IH(1) by (simp add: h3)
      have b: "\<forall>r' < next_ref h. rowdicts (snd ?rest) r' = rowdicts h r'"
        using IH(2) below by (simp add: h3)
      have rowval: "rowdicts (snd ?rest) ?row = rowdicts ?h3 ?row"
        using IH(2) by (simp add: h3)
      have fillv: "fill_row (objs h) (lists h headers) cmin cmax bias [] (lists h g)
                     = Inr (rowdicts (snd ?rest) ?row)"
        using fill None rowval by simp
      show ?thesis
      proof (cases "fst ?rest")
        case (Some e)
        with IH(3) n b fillv look show ?thesis
          unfolding eq by (simp add: split_beta)
      next
        case rest_ok: None
        with IH(3) obtain new where new: "lists (snd ?rest) rows = lists ?h3 rows @ new"
          "build_rows (objs h) (lists h headers) cmin cmax bias (decode_lookup h rl) ks
             = Inr (map (rowdicts (snd ?rest)) new)"
          by auto
        have "lists (snd ?rest) rows = lists h rows @ (?row # new)"
          using new(1) by (simp add: h3 h2)
        moreover have "build_rows (objs h) (lists h headers) cmin cmax bias (decode_lookup h rl) (k # ks)
             = Inr (map (rowdicts (snd ?rest)) (?row # new))"
          using look fillv new(2) by simp
        ultimately show ?thesis
          using n b rest_ok unfolding eq by (auto simp: split_beta)
      qed
    qed
  qed
qed

lemma new_list_sel:
  "lists (snd (new_list xs h)) = (lists h)(next_ref h := xs)"
  "lookups (snd (new_list xs h)) = lookups h"
  "rowdicts (snd (new_list xs h)) = rowdicts h"
  "objs (snd (new_list xs h)) = objs h"
  "next_ref (snd (new_list xs h)) = next_ref h + 1"
  "fst (new_list xs h) = next_ref h"
  by (simp_all add: new_list_def)

lemma find_table_heap_refines:
  assumes "lines < next_ref h"
  shows "fst (find_table (pyheap.truncate h) headers lines row_min_attr row_max_attr
                col_min_attr col_max_attr reverse_sort heading_bias)
         = (case find_table_heap h headers lines row_min_attr row_max_attr col_min_attr col_max_attr
                   reverse_sort heading_bias of
              (Inl e, h') \<Rightarrow> Inl e
            | (Inr rows, h') \<Rightarrow> Inr (map (rowdicts h') (lists h' rows)))"
proof -
  let ?n0 = "next_ref h"
  let ?sorted = "sort_key (\<lambda>l. getattr (objs h l) col_min_attr) (lists h headers)"
  let ?h1 = "snd (new_list ?sorted h)"
  let ?gal = "get_attr_lookup_heap ?h1 lines row_min_attr"
  let ?rl = "fst ?gal" and ?h2 = "snd ?gal"
  let ?rows = "next_ref ?h2"
  let ?h3 = "snd (new_list [] ?h2)"
  let ?V = "get_attr_lookup (objs h) (lists h lines) row_min_attr"
  have h1: "lists ?h1 = (lists h)(?n0 := ?sorted)" "objs ?h1 = objs h"
    "next_ref ?h1 = ?n0 + 1"
    by (simp_all only: new_list_sel)
  have lines1: "lines < next_ref ?h1" "lists ?h1 lines = lists h lines"
    using assms by (simp_all add: h1)
  note R = get_attr_lookup_heap_refines [OF lines1(1), of row_min_attr, unfolded lines1(2) h1(2,3)]
  from R have dec2: "decode_lookup ?h2 ?rl = ?V" by blast
  from R have inv2: "lookup_inv ?h2 ?rl" by blast
  from R have rl: "?rl = ?n0 + 1" by blast
  from get_attr_lookup_heap_frame [of "next_ref ?h1" ?h1 lines row_min_attr]
  have frame2: "unchanged_below (?n0 + 1) ?h1 ?h2" by (simp add: h1)
  then have h2: "objs ?h2 = objs h" "lists ?h2 ?n0 = ?sorted" "?n0 + 1 \<le> next_ref ?h2"
    by (simp_all add: unchanged_below_def h1)
  have h3: "lists ?h3 = (lists ?h2)(?rows := [])" "lookups ?h3 = lookups ?h2"
    "objs ?h3 = objs h" "next_ref ?h3 = ?rows + 1"
    by (simp_all only: new_list_sel h2)
  have groups: "\<forall>g \<in> snd ` set (lookups ?h2 ?rl). g < ?rows"
    using inv2 by (simp add: lookup_inv_def)
  have dec3: "decode_lookup ?h3 ?rl = ?V"
  proof -
    from groups have "\<forall>kg \<in> set (lookups ?h2 ?rl). snd kg \<noteq> ?rows" by force
    then have "map (\<lambda>kg. (fst kg, ((lists ?h2)(?rows := [])) (snd kg))) (lookups ?h2 ?rl)
                 = map (\<lambda>kg. (fst kg, lists ?h2 (snd kg))) (lookups ?h2 ?rl)"
      by (intro map_cong) auto
    then have "decode_lookup ?h3 ?rl = decode_lookup ?h2 ?rl"
      by (simp add: decode_lookup_def h3)
    with dec2 show ?thesis by simp
  qed
  have hdr3: "lists ?h3 ?n0 = ?sorted" using h2(2,3) by (simp add: h3)
  have keys: "dict_keys (lookups ?h3 ?rl) = dict_keys ?V"
    unfolding dec3 [symmetric] by (simp add: decode_lookup_def dict_keys_def comp_def)
  let ?keys = "sorted_keys reverse_sort ?V"
  let ?build = "build_rows_heap ?n0 col_min_attr col_max_attr heading_bias ?rl ?rows ?keys ?h3"
  have p1: "?rows < next_ref ?h3" by (simp add: h3)
  have p2: "\<forall>r \<in> set (lists ?h3 ?rows). r < next_ref ?h3" by (simp add: h3)
  have p3: "?rows \<noteq> ?n0" using h2(3) by simp
  have p4: "\<forall>g \<in> snd ` set (lookups ?h3 ?rl). g \<noteq> ?rows" using groups by (auto simp: h3)
  note B = build_rows_heap_refines [OF p1 p2 p3 p4, of col_min_attr col_max_attr heading_bias ?keys,
      unfolded split_beta dec3 hdr3 h3(3)]
  have val: "fst (find_table (pyheap.truncate h) headers lines row_min_attr row_max_attr
                col_min_attr col_max_attr reverse_sort heading_bias)
         = build_rows (objs h) ?sorted col_min_attr col_max_attr heading_bias ?V ?keys"
    by (simp add: find_table_def sorted_headers_def pyheap.truncate_def Let_def)
  have heap: "find_table_heap h headers lines row_min_attr row_max_attr col_min_attr col_max_attr
                   reverse_sort heading_bias
         = (case fst ?build of Some e \<Rightarrow> (Inl e, snd ?build) | None \<Rightarrow> (Inr ?rows, snd ?build))"
    unfolding find_table_heap_def Let_def split_beta new_list_sel(6) sorted_keys_def keys [symmetric]
    by (rule refl)
  show ?thesis
  proof (cases "fst ?build")
    case (Some e)
    with B show ?thesis unfolding val heap by (simp add: split_beta)
  next
    case None
    with B obtain new where "lists (snd ?build) ?rows = lists ?h3 ?rows @ new"
      "build_rows (objs h) ?sorted col_min_attr col_max_attr heading_bias ?V ?keys
         = Inr (map (rowdicts (snd ?build)) new)"
      by auto
    with None show ?thesis unfolding val heap by (simp add: split_beta h3)
  qed
qed

lemma find_table_heap_sorted_copy:
  "lists (snd (find_table_heap h headers lines row_min_attr row_max_attr col_min_attr col_max_attr
                 reverse_sort heading_bias)) (next_ref h)
   = sort_key (\<lambda>l. getattr (objs h l) col_min_attr) (lists h headers)"
proof -
  let ?n = "next_ref h + 1"
  let ?sorted = "sort_key (\<lambda>l. getattr (objs h l) col_min_attr) (lists h headers)"
  let ?h1 = "snd (new_list ?sorted h)"
  let ?gal = "get_attr_lookup_heap ?h1 lines row_min_attr"
  let ?h2 = "snd ?gal"
  let ?h3 = "snd (new_list [] ?h2)"
  let ?keys = "if reverse_sort then rev (sort (dict_keys (lookups ?h3 (fst ?gal))))
               else sort (dict_keys (lookups ?h3 (fst ?gal)))"
  let ?build = "build_rows_heap (next_ref h) col_min_attr col_max_attr heading_bias (fst ?gal)
                  (next_ref ?h2) ?keys ?h3"
  have n1: "?n \<le> next_ref ?h1" by (simp only: new_list_sel)
  have copy: "lists ?h1 (next_ref h) = ?sorted" by (simp only: new_list_sel fun_upd_same)
  from get_attr_lookup_heap_frame [OF n1] have 2: "unchanged_below ?n ?h1 ?h2" by blast
  note n2 = unchanged_below_next [OF 2 n1]
  have 3: "unchanged_below ?n ?h2 ?h3" using n2 by (rule new_list_frame)
  note n3 = unchanged_below_next [OF 3 n2]
  have 4: "unchanged_below ?n ?h3 (snd ?build)" using n2 n3 by (rule build_rows_heap_frame)
  from 2 3 4 have "unchanged_below ?n ?h1 (snd ?build)"
    by (blast intro: unchanged_below_trans)
  then have "lists (snd ?build) (next_ref h) = lists ?h1 (next_ref h)"
    by (simp add: unchanged_below_def)
  moreover have "snd (find_table_heap h headers lines row_min_attr row_max_attr col_min_attr
             col_max_attr reverse_sort heading_bias) = snd ?build"
    by (simp add: find_table_heap_def new_list_def Let_def split_beta split: option.splits)
  ultimately show ?thesis using copy by simp
qed

lemma table_heap_simps:
  "lists table_heap 0 = [1, 0]" "lists table_heap 1 = [2, 3]"
  "lookups table_heap r = []" "rowdicts table_heap r = []" "next_ref table_heap = 2"
  "objs table_heap = objs unsorted_heap"
  "pyheap.truncate table_heap = unsorted_heap"
  by (simp_all add: table_heap_def unsorted_heap_simps pyheap.truncate_def del: One_nat_def)

text \<open>
  Claim C9. \<^verbatim>\<open>find_table\<close> does not modify its inputs. For a call on existing list objects
  \<open>headers\<close> and \<open>lines\<close>, whether it returns or raises: the list \<open>headers\<close> has the same
  elements in the same order as before, the list \<open>lines\<close> is unchanged, no \<^verbatim>\<open>TextLine\<close>
  has changed (text, fontname, coordinates), and so is every list and dictionary that
  existed before the call. The sort by \<open>col_min_attr\<close> is in a new list, the first object
  allocated. The call computes the result of \<open>find_table\<close>: the same error, or a new list
  of new row dictionaries with the same content.
\<close>

theorem find_table_heap_frame:
  assumes "headers < next_ref h" and "lines < next_ref h"
  shows "case find_table_heap h headers lines row_min_attr row_max_attr col_min_attr col_max_attr
                reverse_sort heading_bias of
           (result, h') \<Rightarrow>
               lists h' headers = lists h headers
             \<and> lists h' lines = lists h lines
             \<and> objs h' = objs h
             \<and> (\<forall>r<next_ref h. lists h' r = lists h r \<and> lookups h' r = lookups h r
                                 \<and> rowdicts h' r = rowdicts h r)
             \<and> lists h' (next_ref h)
                 = sort_key (\<lambda>l. getattr (objs h l) col_min_attr) (lists h headers)
             \<and> (case result of Inl e \<Rightarrow> Inl e
                  | Inr rows \<Rightarrow> Inr (map (rowdicts h') (lists h' rows)))
                 = fst (find_table (pyheap.truncate h) headers lines row_min_attr row_max_attr
                          col_min_attr col_max_attr reverse_sort heading_bias)"
proof -
  let ?call = "find_table_heap h headers lines row_min_attr row_max_attr col_min_attr col_max_attr
                 reverse_sort heading_bias"
  note U = find_table_heap_unchanged [of h headers lines row_min_attr row_max_attr col_min_attr
      col_max_attr reverse_sort heading_bias, unfolded unchanged_below_def]
  from U have objs: "objs (snd ?call) = objs h" by blast
  from U have below: "\<forall>r<next_ref h. lists (snd ?call) r = lists h r
      \<and> lookups (snd ?call) r = lookups h r \<and> rowdicts (snd ?call) r = rowdicts h r"
    by blast
  note copy = find_table_heap_sorted_copy [of h headers lines row_min_attr row_max_attr
      col_min_attr col_max_attr reverse_sort heading_bias]
  note value_level = find_table_heap_refines [OF assms(2), of headers row_min_attr row_max_attr
      col_min_attr col_max_attr reverse_sort heading_bias, unfolded split_beta, symmetric]
  from below assms have "lists (snd ?call) headers = lists h headers"
    and "lists (snd ?call) lines = lists h lines"
    by blast+
  with objs below copy value_level show ?thesis
    unfolding split_beta by blast
qed

theorem find_table_heap_frame_witness:
  "next_ref table_heap = 2 \<and> lists table_heap 0 = [1, 0] \<and> lists table_heap 1 = [2, 3]
   \<and> fst (find_table_heap table_heap 0 1 Y0 Y1 X0 X1 True ''centered'') = Inr 6
   \<and> lists (snd (find_table_heap table_heap 0 1 Y0 Y1 X0 X1 True ''centered'')) 0 = [1, 0]
   \<and> lists (snd (find_table_heap table_heap 0 1 Y0 Y1 X0 X1 True ''centered'')) 1 = [2, 3]
   \<and> objs (snd (find_table_heap table_heap 0 1 Y0 Y1 X0 X1 True ''centered'')) = objs table_heap
   \<and> lists (snd (find_table_heap table_heap 0 1 Y0 Y1 X0 X1 True ''centered'')) 2 = [0, 1]
   \<and> lookups (snd (find_table_heap table_heap 0 1 Y0 Y1 X0 X1 True ''centered'')) 3
        = [(- 5, 4), (- 7, 5)]
   \<and> lists (snd (find_table_heap table_heap 0 1 Y0 Y1 X0 X1 True ''centered'')) 4 = [2]
   \<and> lists (snd (find_table_heap table_heap 0 1 Y0 Y1 X0 X1 True ''centered'')) 5 = [3]
   \<and> lists (snd (find_table_heap table_heap 0 1 Y0 Y1 X0 X1 True ''centered'')) 6 = [7, 8]
   \<and> rowdicts (snd (find_table_heap table_heap 0 1 Y0 Y1 X0 X1 True ''centered'')) 7
        = [(''A'', 2)]
   \<and> rowdicts (snd (find_table_heap table_heap 0 1 Y0 Y1 X0 X1 True ''centered'')) 8
        = [(''A'', 3)]
   \<and> fst (find_table unsorted_heap 0 1 Y0 Y1 X0 X1 True ''centered'')
        = Inr [[(''A'', 2)], [(''A'', 3)]]"
proof -
  let ?call = "find_table_heap table_heap 0 1 Y0 Y1 X0 X1 True ''centered''"
  note ev = find_table_heap_def new_list_def new_lookup_def new_row_def list_append_def
    lookup_setitem_def row_setitem_def lookup_add_def get_attr_lookup_heap_def
    select_header_def overlap_def py_min_def tuple_lt_def dict_keys_def
    table_heap_simps unsorted_heap_simps new_TextLine_def
  have res: "fst ?call = Inr 6"
    by (simp add: ev del: One_nat_def)
  have rows: "lists (snd ?call) 6 = [7, 8]"
    by (simp add: ev del: One_nat_def)
  have row1: "rowdicts (snd ?call) 7 = [(''A'', 2)]"
    by (simp add: ev del: One_nat_def)
  have row2: "rowdicts (snd ?call) 8 = [(''A'', 3)]"
    by (simp add: ev del: One_nat_def)
  have lookup: "lookups (snd ?call) 3 = [(- 5, 4), (- 7, 5)]"
    by (simp add: ev del: One_nat_def)
  have groups: "lists (snd ?call) 4 = [2]" "lists (snd ?call) 5 = [3]"
    by (simp_all add: ev del: One_nat_def)
  have sorted: "sort_key (\<lambda>l. getattr (objs table_heap l) X0) (lists table_heap 0) = [0, 1]"
    by (simp add: table_heap_simps unsorted_heap_simps new_TextLine_def del: One_nat_def)
  have pre: "0 < next_ref table_heap" "1 < next_ref table_heap"
    by (simp_all add: table_heap_simps)
  note frame = find_table_heap_frame [OF pre, where row_min_attr = Y0 and row_max_attr = Y1
      and col_min_attr = X0 and col_max_attr = X1 and reverse_sort = True
      and heading_bias = "''centered''",
      unfolded split_beta table_heap_simps(5,7) sorted]
  from frame have "lists (snd ?call) 0 = lists table_heap 0"
    and "lists (snd ?call) 1 = lists table_heap 1"
    and "objs (snd ?call) = objs table_heap"
    and "lists (snd ?call) 2 = [0, 1]"
    and "(case fst ?call of Inl e \<Rightarrow> Inl e
          | Inr rows \<Rightarrow> Inr (map (rowdicts (snd ?call)) (lists (snd ?call) rows)))
         = fst (find_table unsorted_heap 0 1 Y0 Y1 X0 X1 True ''centered'')"
    by blast+
  with res rows row1 row2 lookup groups show ?thesis
    by (simp add: table_heap_simps del: One_nat_def)
qed

end
